theory Spec2Isabelle
  imports Main "HOL-Library.Word" "HOL-Library.Monad_Syntax"
begin

section \<open>Bytes and memory\<close>

text \<open>
  A \<^verbatim>\<open>char\<close> is an 8-bit word. Pointers into a buffer are offsets (\<open>nat\<close>) from the start
  of the allocation they point into; the allocation itself is a list of bytes. Reading
  outside the allocation is undefined behaviour in C++ and is the value \<open>None\<close> here.
\<close>

type_synonym byte = "8 word"

definition CR :: byte where "CR = 0x0D"
definition LF :: byte where "LF = 0x0A"

definition peek :: "byte list \<Rightarrow> nat \<Rightarrow> byte option" where
  "peek mem i = (if i < length mem then Some (mem ! i) else None)"

section \<open>StringSpannerFallback\<close>

text \<open>
  \<^verbatim>\<open>charset_[(unsigned) c1] = 1\<close> with \<^verbatim>\<open>char c1\<close>: on the x86 ABI this library targets
  \<^verbatim>\<open>char\<close> is signed, so the conversion to \<^verbatim>\<open>unsigned\<close> sign-extends to 32 bits. For a
  byte of 0x80 and above the index lies far outside the 256-entry table; that store is
  out of bounds, and the constructor has no defined result (\<open>None\<close>). The table is
  \<^verbatim>\<open>uint8_t charset_[256]\<close>.
\<close>

definition unsigned_of_char :: "byte \<Rightarrow> 32 word" where
  "unsigned_of_char c = scast c"

definition charset_store :: "byte list \<Rightarrow> 32 word \<Rightarrow> byte \<Rightarrow> byte list option" where
  "charset_store cs i v = (if i < 256 then Some (cs[unat i := v]) else None)"

definition StringSpannerFallback :: "byte \<Rightarrow> byte \<Rightarrow> byte \<Rightarrow> byte \<Rightarrow> byte list option" where
  "StringSpannerFallback c1 c2 c3 c4 = do {
     cs1 \<leftarrow> charset_store (replicate 256 0) (unsigned_of_char c1) 1;
     cs2 \<leftarrow> charset_store cs1 (unsigned_of_char c2) 1;
     cs3 \<leftarrow> charset_store cs2 (unsigned_of_char c3) 1;
     cs4 \<leftarrow> charset_store cs3 (unsigned_of_char c4) 1;
     charset_store cs4 0 0
   }"

text \<open>
  \<^verbatim>\<open>operator()\<close>: the do-while loop over groups of four bytes. \<open>s\<close> is the offset of the
  window in \<open>mem\<close>, \<open>p\<close> the offset of the current group inside the window. The bytes are
  read one at a time, as \<^verbatim>\<open>unsigned char\<close>, and only as far as the first match.
\<close>

function span_loop :: "byte list \<Rightarrow> byte list \<Rightarrow> nat \<Rightarrow> nat \<Rightarrow> nat option" where
  "span_loop charset mem s p = do {
     b0 \<leftarrow> peek mem (s + p);
     if charset ! unat b0 \<noteq> 0 then Some p else do {
     b1 \<leftarrow> peek mem (s + p + 1);
     if charset ! unat b1 \<noteq> 0 then Some (p + 1) else do {
     b2 \<leftarrow> peek mem (s + p + 2);
     if charset ! unat b2 \<noteq> 0 then Some (p + 2) else do {
     b3 \<leftarrow> peek mem (s + p + 3);
     if charset ! unat b3 \<noteq> 0 then Some (p + 3)
     else if p + 4 < 16 then span_loop charset mem s (p + 4)
     else Some (p + 4) } } } }"
  by pat_completeness auto
termination
  by (relation "measure (\<lambda>(charset, mem, s, p). 16 - p)") auto

definition StringSpannerFallback_call :: "byte list \<Rightarrow> byte list \<Rightarrow> nat \<Rightarrow> nat option" where
  "StringSpannerFallback_call charset mem s = span_loop charset mem s 0"

section \<open>StringSpannerSse42\<close>

text \<open>
  \<^verbatim>\<open>__v16qi vq = {c1, c2, c3, c4}\<close>: the remaining twelve lanes are zero.
\<close>

definition StringSpannerSse42 :: "byte \<Rightarrow> byte \<Rightarrow> byte \<Rightarrow> byte \<Rightarrow> byte list" where
  "StringSpannerSse42 c1 c2 c3 c4 = [c1, c2, c3, c4] @ replicate 12 0"

text \<open>
  The two intrinsics are the processor's, not this repository's; they are modelled from
  the Intel instruction reference. \<^verbatim>\<open>_mm_loadu_si128\<close> reads sixteen bytes.
  \<^verbatim>\<open>_mm_cmpistri(a, b, 0)\<close> is PCMPISTRI with control byte 0: unsigned bytes, "equal
  any", positive polarity, least significant index. Both operands are implicit-length
  strings: each ends before its first zero byte. Bit \<open>j\<close> of the intermediate result is
  set when byte \<open>j\<close> of \<open>b\<close> is valid and equals some valid byte of \<open>a\<close>; the
  instruction returns the index of the lowest set bit, or 16 when no bit is set.
\<close>

definition mm_loadu_si128 :: "byte list \<Rightarrow> nat \<Rightarrow> byte list option" where
  "mm_loadu_si128 mem s = (if s + 16 \<le> length mem then Some (take 16 (drop s mem)) else None)"

definition implicit_length :: "byte list \<Rightarrow> nat" where
  "implicit_length v = length (takeWhile (\<lambda>c. c \<noteq> 0) v)"

definition IntRes1 :: "byte list \<Rightarrow> byte list \<Rightarrow> nat \<Rightarrow> bool" where
  "IntRes1 a b j = (j < implicit_length b \<and> b ! j \<in> set (take (implicit_length a) a))"

definition mm_cmpistri :: "byte list \<Rightarrow> byte list \<Rightarrow> nat" where
  "mm_cmpistri a b = (case List.find (IntRes1 a b) [0..<16] of None \<Rightarrow> 16 | Some j \<Rightarrow> j)"

definition StringSpannerSse42_call :: "byte list \<Rightarrow> byte list \<Rightarrow> nat \<Rightarrow> nat option" where
  "StringSpannerSse42_call v mem s = map_option (mm_cmpistri v) (mm_loadu_si128 mem s)"

text \<open>
  \<^verbatim>\<open>using StringSpanner = ...\<close> picks one of the two at compile time.
\<close>

datatype StringSpanner = Fallback "byte list" | Sse42 "byte list"

fun StringSpanner_new :: "bool \<Rightarrow> byte \<Rightarrow> byte \<Rightarrow> byte \<Rightarrow> byte \<Rightarrow> StringSpanner option" where
  "StringSpanner_new True c1 c2 c3 c4 = Some (Sse42 (StringSpannerSse42 c1 c2 c3 c4))"
| "StringSpanner_new False c1 c2 c3 c4 = map_option Fallback (StringSpannerFallback c1 c2 c3 c4)"

fun StringSpanner_call :: "StringSpanner \<Rightarrow> byte list \<Rightarrow> nat \<Rightarrow> nat option" where
  "StringSpanner_call (Fallback charset) mem s = StringSpannerFallback_call charset mem s"
| "StringSpanner_call (Sse42 v) mem s = StringSpannerSse42_call v mem s"

text \<open>Construct a spanner from four target bytes and run it on the window at \<open>s\<close>.\<close>

definition StringSpanner_span ::
  "bool \<Rightarrow> byte \<Rightarrow> byte \<Rightarrow> byte \<Rightarrow> byte \<Rightarrow> byte list \<Rightarrow> nat \<Rightarrow> nat option" where
  "StringSpanner_span sse c1 c2 c3 c4 mem s =
     (case StringSpanner_new sse c1 c2 c3 c4 of None \<Rightarrow> None
      | Some sp \<Rightarrow> StringSpanner_call sp mem s)"

text \<open>
  The contract of the specification, in its words: the index in \<open>[0, 16]\<close> of the first
  byte of the window equal to any target, or 16 if none matches.
\<close>

definition first_target_index :: "byte set \<Rightarrow> byte list \<Rightarrow> nat" where
  "first_target_index T w = length (takeWhile (\<lambda>b. b \<notin> T) (take 16 w))"

text \<open>Auxiliary predicates for reasoning about the table lookup at one address.\<close>

definition no_match :: "byte list \<Rightarrow> byte list \<Rightarrow> nat \<Rightarrow> bool" where
  "no_match cs mem a \<longleftrightarrow> a < length mem \<and> cs ! unat (mem ! a) = 0"

definition is_match :: "byte list \<Rightarrow> byte list \<Rightarrow> nat \<Rightarrow> bool" where
  "is_match cs mem a \<longleftrightarrow> a < length mem \<and> cs ! unat (mem ! a) \<noteq> 0"


section \<open>Stream cursors\<close>

subsection \<open>MappedFileCursor\<close>

text \<open>
  The mapping installed by \<^verbatim>\<open>open\<close>, as the bytes readable from \<^verbatim>\<open>startp_\<close>: the file, the
  zero fill up to the end of its last page, and the anonymous guard page. \<open>mf_endp\<close> and
  \<open>mf_p\<close> are \<^verbatim>\<open>endp_\<close> and \<^verbatim>\<open>p_\<close> as offsets from \<^verbatim>\<open>startp_\<close>. Only the path of
  \<^verbatim>\<open>open\<close> on which every system call succeeds is modelled; the page size is a power of
  two, so that \<^verbatim>\<open>st_size & page_mask\<close> is \<open>mod\<close> and \<^verbatim>\<open>st_size & ~page_mask\<close> rounds down.
\<close>

record MappedFileCursor =
  mapping :: "byte list"
  mf_endp :: nat
  mf_p :: nat

definition MappedFileCursor_open :: "nat \<Rightarrow> byte list \<Rightarrow> MappedFileCursor" where
  "MappedFileCursor_open page_size file =
     (let st_size = length file;
          rounded = (if st_size mod page_size \<noteq> 0
                     then (st_size - st_size mod page_size) + page_size else st_size)
      in \<lparr> mapping = file @ replicate (rounded + page_size - st_size) 0,
           mf_endp = st_size, mf_p = 0 \<rparr>)"

definition MappedFileCursor_buf :: "MappedFileCursor \<Rightarrow> nat" where
  "MappedFileCursor_buf c = mf_p c"

definition MappedFileCursor_size :: "MappedFileCursor \<Rightarrow> nat" where
  "MappedFileCursor_size c = mf_endp c - mf_p c"

definition MappedFileCursor_consume :: "MappedFileCursor \<Rightarrow> nat \<Rightarrow> MappedFileCursor" where
  "MappedFileCursor_consume c n = c\<lparr> mf_p := mf_p c + min n (mf_endp c - mf_p c) \<rparr>"

definition MappedFileCursor_fill :: "MappedFileCursor \<Rightarrow> bool \<times> MappedFileCursor" where
  "MappedFileCursor_fill c = (False, c)"

subsection \<open>BufferedStreamCursor and FdStreamCursor\<close>

text \<open>
  The descriptor is the environment: \<open>fd\<close> lists what the next calls of \<^verbatim>\<open>::read\<close> find,
  an error or a chunk of bytes; once the list is exhausted every read is at end of file.
  \<^verbatim>\<open>::read(fd, buf, n)\<close> returns -1 on an error, and otherwise the number of bytes it
  stored, at most \<open>n\<close>; what does not fit stays for the next call.
\<close>

datatype read_result = ReadError | ReadData "byte list"

fun sys_read :: "read_result list \<Rightarrow> nat \<Rightarrow> int \<times> byte list \<times> read_result list" where
  "sys_read [] n = (0, [], [])"
| "sys_read (ReadError # rest) n = (- 1, [], rest)"
| "sys_read (ReadData bs # rest) n =
     (if length bs \<le> n then (int (length bs), bs, rest)
      else (int n, take n bs, ReadData (drop n bs) # rest))"

record FdStreamCursor =
  vec :: "byte list"
  read_pos :: nat
  write_pos :: nat
  fd :: "read_result list"

definition FdStreamCursor_new :: "read_result list \<Rightarrow> FdStreamCursor" where
  "FdStreamCursor_new f = \<lparr> vec = replicate 131072 0, read_pos = 0, write_pos = 0, fd = f \<rparr>"

definition ensure :: "FdStreamCursor \<Rightarrow> nat \<Rightarrow> FdStreamCursor" where
  "ensure c capacity =
     (let available = length (vec c) - write_pos c
      in if available < capacity
         then c\<lparr> vec := vec c @ replicate (16 + (length (vec c) + capacity) - length (vec c)) 0 \<rparr>
         else c)"

definition BufferedStreamCursor_buf :: "FdStreamCursor \<Rightarrow> nat" where
  "BufferedStreamCursor_buf c = read_pos c"

definition BufferedStreamCursor_size :: "FdStreamCursor \<Rightarrow> nat" where
  "BufferedStreamCursor_size c = write_pos c - read_pos c"

definition BufferedStreamCursor_consume :: "FdStreamCursor \<Rightarrow> nat \<Rightarrow> FdStreamCursor" where
  "BufferedStreamCursor_consume c n = c\<lparr> read_pos := read_pos c + min n (write_pos c - read_pos c) \<rparr>"

text \<open>
  \<^verbatim>\<open>readmore\<close>: one \<^verbatim>\<open>::read\<close> of \<^verbatim>\<open>vec_.size() - write_pos_\<close> bytes into \<^verbatim>\<open>&vec_[write_pos_]\<close>.
\<close>

definition readmore :: "FdStreamCursor \<Rightarrow> int \<times> FdStreamCursor" where
  "readmore c =
     (case sys_read (fd c) (length (vec c) - write_pos c) of
        (rc, bs, fd') \<Rightarrow>
          (rc, c\<lparr> vec := take (write_pos c) (vec c) @ bs @ drop (write_pos c + length bs) (vec c),
                  fd := fd' \<rparr>))"

text \<open>
  \<^verbatim>\<open>fill\<close>. The \<^verbatim>\<open>memcpy\<close> moves the \<open>n\<close> unread bytes to the front of the vector.
\<close>

definition BufferedStreamCursor_fill :: "FdStreamCursor \<Rightarrow> bool \<times> FdStreamCursor" where
  "BufferedStreamCursor_fill c =
     (let c1 = (if read_pos c \<noteq> 0
                then (let n = write_pos c - read_pos c
                      in c\<lparr> vec := take n (drop (read_pos c) (vec c)) @ drop n (vec c),
                            write_pos := write_pos c - read_pos c,
                            read_pos := 0 \<rparr>)
                else c);
          c2 = (if write_pos c1 = length (vec c1) then ensure c1 (length (vec c1) div 2) else c1)
      in case readmore c2 of
           (rc, c3) \<Rightarrow>
             if rc = - 1 then (False, c3)
             else (let c4 = c3\<lparr> write_pos := write_pos c3 + nat rc \<rparr>
                   in (write_pos c4 > 0, c4)))"

subsection \<open>StreamCursor\<close>

text \<open>The abstract class, with its two implementations and the virtual calls.\<close>

datatype StreamCursor = Mapped MappedFileCursor | Fd FdStreamCursor

fun StreamCursor_mem :: "StreamCursor \<Rightarrow> byte list" where
  "StreamCursor_mem (Mapped c) = mapping c"
| "StreamCursor_mem (Fd c) = vec c"

fun StreamCursor_buf :: "StreamCursor \<Rightarrow> nat" where
  "StreamCursor_buf (Mapped c) = MappedFileCursor_buf c"
| "StreamCursor_buf (Fd c) = BufferedStreamCursor_buf c"

fun StreamCursor_size :: "StreamCursor \<Rightarrow> nat" where
  "StreamCursor_size (Mapped c) = MappedFileCursor_size c"
| "StreamCursor_size (Fd c) = BufferedStreamCursor_size c"

fun StreamCursor_consume :: "StreamCursor \<Rightarrow> nat \<Rightarrow> StreamCursor" where
  "StreamCursor_consume (Mapped c) n = Mapped (MappedFileCursor_consume c n)"
| "StreamCursor_consume (Fd c) n = Fd (BufferedStreamCursor_consume c n)"

fun StreamCursor_fill :: "StreamCursor \<Rightarrow> bool \<times> StreamCursor" where
  "StreamCursor_fill (Mapped c) = (case MappedFileCursor_fill c of (b, c') \<Rightarrow> (b, Mapped c'))"
| "StreamCursor_fill (Fd c) = (case BufferedStreamCursor_fill c of (b, c') \<Rightarrow> (b, Fd c'))"

section \<open>CsvCell\<close>

text \<open>
  \<open>ptr\<close> is \<open>None\<close> for the null pointer and otherwise an offset into the memory of the
  cursor the cell was parsed from; \<open>size_c\<close> is the field \<^verbatim>\<open>size\<close>.
\<close>

record CsvCell =
  ptr :: "nat option"
  size_c :: nat
  escaped :: bool

text \<open>\<^verbatim>\<open>std::string(ptr, size)\<close>: the raw bytes of the cell.\<close>

definition raw_bytes :: "byte list \<Rightarrow> CsvCell \<Rightarrow> byte list" where
  "raw_bytes mem c = (case ptr c of None \<Rightarrow> [] | Some a \<Rightarrow> take (size_c c) (drop a mem))"

text \<open>
  The loop of \<^verbatim>\<open>as_str\<close>, in place on the string \<open>s\<close> with the read index \<open>i\<close> and the
  write index \<open>o\<close>. When the last byte is skipped, \<^verbatim>\<open>s[i]\<close> is \<^verbatim>\<open>s[s.size()]\<close>, the
  terminating zero of the string.
\<close>

function as_str_loop :: "byte \<Rightarrow> byte \<Rightarrow> byte list \<Rightarrow> nat \<Rightarrow> nat \<Rightarrow> byte list \<times> nat" where
  "as_str_loop escapechar quotechar s oo i =
     (if i < length s then
        (let c = s ! i;
             i1 = (if (escapechar \<noteq> 0 \<and> c = escapechar) \<or> c = quotechar then i + 1 else i);
             v = (if i1 < length s then s ! i1 else 0)
         in as_str_loop escapechar quotechar (s[oo := v]) (oo + 1) (i1 + 1))
      else (s, oo))"
  by pat_completeness auto
termination
  by (relation "measure (\<lambda>(escapechar, quotechar, s, oo, i). length s - i)") auto

definition as_str :: "byte list \<Rightarrow> CsvCell \<Rightarrow> byte \<Rightarrow> byte \<Rightarrow> byte list" where
  "as_str mem c escapechar quotechar =
     (let s = raw_bytes mem c
      in if escaped c
         then (case as_str_loop escapechar quotechar s 0 0 of (s', oo) \<Rightarrow> take oo s')
         else s)"

text \<open>
  The same decoding as a function from the raw bytes to the decoded bytes; the loop
  computes it (lemma \<open>as_str_loop_unescape\<close>).
\<close>

fun unescape :: "byte \<Rightarrow> byte \<Rightarrow> byte list \<Rightarrow> byte list" where
  "unescape escapechar quotechar [] = []"
| "unescape escapechar quotechar (c # s) =
     (if (escapechar \<noteq> 0 \<and> c = escapechar) \<or> c = quotechar
      then (case s of [] \<Rightarrow> [0] | d # s' \<Rightarrow> d # unescape escapechar quotechar s')
      else c # unescape escapechar quotechar s)"

section \<open>CsvCursor and CsvReader\<close>

record CsvCursor =
  cells :: "CsvCell list"
  count :: nat

definition CsvCursor_new :: CsvCursor where
  "CsvCursor_new = \<lparr> cells = replicate 32 \<lparr> ptr = None, size_c = 0, escaped = False \<rparr>, count = 0 \<rparr>"

text \<open>
  The members \<^verbatim>\<open>endp_\<close> and \<^verbatim>\<open>p_\<close> are \<open>endp_r\<close> and \<open>p_r\<close>, offsets into the memory of
  the stream. The reader holds a reference to the stream; here it holds the stream.
\<close>

record CsvReader =
  endp_r :: nat
  p_r :: nat
  delimiter :: byte
  quotechar :: byte
  escapechar :: byte
  yield_incomplete_row :: bool
  in_newline_skip :: bool
  stream :: StreamCursor
  quoted_cell_spanner :: StringSpanner
  unquoted_cell_spanner :: StringSpanner
  row :: CsvCursor

text \<open>
  The constructor; \<open>sse\<close> says which spanner the build uses. \<^verbatim>\<open>in_newline_skip\<close> is not
  initialised by the constructor and is only ever written by the parser.
\<close>

definition CsvReader_new ::
  "bool \<Rightarrow> StreamCursor \<Rightarrow> byte \<Rightarrow> byte \<Rightarrow> byte \<Rightarrow> bool \<Rightarrow> CsvReader option" where
  "CsvReader_new sse s delim quote esc yield = do {
     q \<leftarrow> StringSpanner_new sse quote esc 0 0;
     u \<leftarrow> StringSpanner_new sse delim CR LF esc;
     Some \<lparr> endp_r = StreamCursor_buf s + StreamCursor_size s,
            p_r = StreamCursor_buf s,
            delimiter = delim, quotechar = quote, escapechar = esc,
            yield_incomplete_row = yield,
            in_newline_skip = False,
            stream = s,
            quoted_cell_spanner = q, unquoted_cell_spanner = u,
            row = CsvCursor_new \<rparr>
   }"

datatype CsmTryParseReturnType = kCsmTryParseOkay | kCsmTryParseOverflow | kCsmTryParseUnderrun

text \<open>
  A store through \<^verbatim>\<open>cell\<close>, the pointer into \<^verbatim>\<open>row_.cells\<close>, here the index \<open>cell\<close>: outside
  the vector it is undefined behaviour (\<open>None\<close>).
\<close>

definition cell_store :: "CsvReader \<Rightarrow> nat \<Rightarrow> (CsvCell \<Rightarrow> CsvCell) \<Rightarrow> CsvReader option" where
  "cell_store r cell f =
     (if cell < length (cells (row r))
      then Some (r\<lparr> row := (row r)\<lparr> cells := (cells (row r))[cell := f (cells (row r) ! cell)] \<rparr> \<rparr>)
      else None)"

definition incr_count :: "CsvReader \<Rightarrow> CsvReader" where
  "incr_count r = r\<lparr> row := (row r)\<lparr> count := count (row r) + 1 \<rparr> \<rparr>"

text \<open>
  \<^verbatim>\<open>try_parse\<close>. Each label of the source is a value of \<open>label\<close>; the locals \<^verbatim>\<open>p\<close>,
  \<^verbatim>\<open>cell_start\<close> and \<^verbatim>\<open>cell\<close> are \<open>p\<close>, \<open>cs\<close> and \<open>cell\<close>. \<open>label_block\<close> is the code from
  one label up to its \<^verbatim>\<open>return\<close> or \<^verbatim>\<open>goto\<close>; every block begins with \<^verbatim>\<open>PREAMBLE\<close>, the test
  \<^verbatim>\<open>p >= endp_\<close>. The result is \<open>None\<close> when a read or a store falls outside its
  allocation.
\<close>

datatype label =
  L_newline_skip | L_cell_start | L_in_quoted_cell | L_in_escape_or_end_of_quoted_cell
  | L_in_unquoted_cell | L_in_escape_or_end_of_unquoted_cell

datatype control =
  Return CsmTryParseReturnType CsvReader
  | Goto label nat nat nat CsvReader

fun label_block ::
  "byte list \<Rightarrow> label \<Rightarrow> nat \<Rightarrow> nat \<Rightarrow> nat \<Rightarrow> CsvReader \<Rightarrow> control option"
where
  "label_block mem L_newline_skip p cs cell r =
     (if p \<ge> endp_r r then Some (Return kCsmTryParseUnderrun (r\<lparr> in_newline_skip := True \<rparr>))
      else do {
        c \<leftarrow> peek mem p;
        if c = CR \<or> c = LF
        then Some (Goto L_newline_skip (p + 1) cs cell (r\<lparr> in_newline_skip := True \<rparr>))
        else Some (Goto L_cell_start p cs cell (r\<lparr> in_newline_skip := True \<rparr>))
      })"
| "label_block mem L_cell_start p cs cell r =
     (if p \<ge> endp_r r then Some (Return kCsmTryParseUnderrun (r\<lparr> in_newline_skip := False \<rparr>))
      else do {
        r1 \<leftarrow> cell_store (r\<lparr> in_newline_skip := False \<rparr>) cell (\<lambda>c. c\<lparr> escaped := False \<rparr>);
        c \<leftarrow> peek mem p;
        if c = CR \<or> c = LF then do {
          r2 \<leftarrow> cell_store r1 cell (\<lambda>c. c\<lparr> ptr := None, size_c := 0 \<rparr>);
          Some (Return kCsmTryParseOkay ((incr_count r2)\<lparr> p_r := p + 1 \<rparr>))
        }
        else if c = quotechar r then Some (Goto L_in_quoted_cell (p + 1) (p + 1) cell r1)
        else Some (Goto L_in_unquoted_cell p p cell r1)
      })"
| "label_block mem L_in_quoted_cell p cs cell r =
     (if p \<ge> endp_r r then Some (Return kCsmTryParseUnderrun r)
      else do {
        rc \<leftarrow> StringSpanner_call (quoted_cell_spanner r) mem p;
        if rc = 16 then Some (Goto L_in_quoted_cell (p + 16) cs cell r)
        else Some (Goto L_in_escape_or_end_of_quoted_cell (p + rc + 1) cs cell r)
      })"
| "label_block mem L_in_escape_or_end_of_quoted_cell p cs cell r =
     (if p \<ge> endp_r r then Some (Return kCsmTryParseUnderrun r)
      else do {
        c \<leftarrow> peek mem p;
        if c = delimiter r then do {
          r1 \<leftarrow> cell_store r cell (\<lambda>c. c\<lparr> ptr := Some cs, size_c := p - cs - 1 \<rparr>);
          if count (row (incr_count r1)) = length (cells (row (incr_count r1)))
          then Some (Return kCsmTryParseOverflow (incr_count r1))
          else Some (Goto L_cell_start (p + 1) cs (cell + 1) (incr_count r1))
        }
        else if c = CR \<or> c = LF then do {
          r1 \<leftarrow> cell_store r cell (\<lambda>c. c\<lparr> ptr := Some cs, size_c := p - cs - 1 \<rparr>);
          Some (Return kCsmTryParseOkay ((incr_count r1)\<lparr> p_r := p + 1 \<rparr>))
        }
        else do {
          r1 \<leftarrow> cell_store r cell (\<lambda>c. c\<lparr> escaped := True \<rparr>);
          Some (Goto L_in_quoted_cell (p + 1) cs cell r1)
        }
      })"
| "label_block mem L_in_unquoted_cell p cs cell r =
     (if p \<ge> endp_r r then Some (Return kCsmTryParseUnderrun r)
      else do {
        rc \<leftarrow> StringSpanner_call (unquoted_cell_spanner r) mem p;
        if rc = 16 then Some (Goto L_in_unquoted_cell (p + 16) cs cell r)
        else Some (Goto L_in_escape_or_end_of_unquoted_cell (p + rc) cs cell r)
      })"
| "label_block mem L_in_escape_or_end_of_unquoted_cell p cs cell r =
     (if p \<ge> endp_r r then Some (Return kCsmTryParseUnderrun r)
      else do {
        c \<leftarrow> peek mem p;
        if c = delimiter r then do {
          r1 \<leftarrow> cell_store r cell (\<lambda>c. c\<lparr> ptr := Some cs, size_c := p - cs \<rparr>);
          if count (row (incr_count r1)) = length (cells (row (incr_count r1)))
          then Some (Return kCsmTryParseOverflow (incr_count r1))
          else Some (Goto L_cell_start (p + 1) cs (cell + 1) (incr_count r1))
        }
        else if c = CR \<or> c = LF then do {
          r1 \<leftarrow> cell_store r cell (\<lambda>c. c\<lparr> ptr := Some cs, size_c := p - cs \<rparr>);
          Some (Return kCsmTryParseOkay ((incr_count r1)\<lparr> p_r := p + 1 \<rparr>))
        }
        else do {
          r1 \<leftarrow> cell_store r cell (\<lambda>c. c\<lparr> escaped := True \<rparr>);
          Some (Goto L_in_unquoted_cell (p + 1) cs cell r1)
        }
      })"

text \<open>
  Running from a label: a \<^verbatim>\<open>goto\<close> continues at its target. Each \<^verbatim>\<open>goto\<close> moves \<^verbatim>\<open>p\<close> forward
  or leads to a label of lower rank at the same \<^verbatim>\<open>p\<close>.
\<close>

fun label_rank :: "label \<Rightarrow> nat" where
  "label_rank L_newline_skip = 3"
| "label_rank L_cell_start = 2"
| "label_rank L_in_unquoted_cell = 1"
| "label_rank L_in_quoted_cell = 0"
| "label_rank L_in_escape_or_end_of_quoted_cell = 0"
| "label_rank L_in_escape_or_end_of_unquoted_cell = 0"

function try_parse_from ::
  "byte list \<Rightarrow> label \<Rightarrow> nat \<Rightarrow> nat \<Rightarrow> nat \<Rightarrow> CsvReader \<Rightarrow> (CsmTryParseReturnType \<times> CsvReader) option"
where
  "try_parse_from mem l p cs cell r =
     (case label_block mem l p cs cell r of
        None \<Rightarrow> None
      | Some (Return rc r') \<Rightarrow> Some (rc, r')
      | Some (Goto l' p' cs' cell' r') \<Rightarrow> try_parse_from mem l' p' cs' cell' r')"
  by pat_completeness auto
termination
proof (relation "measure (\<lambda>(mem, l, p, cs, cell, r). 4 * (endp_r r - p) + label_rank l)")
  fix mem l p cs cell r x2 l' p' cs' cell' r'
  assume "label_block mem l p cs cell r = Some x2" and "x2 = Goto l' p' cs' cell' r'"
  then have "label_block mem l p cs cell r = Some (Goto l' p' cs' cell' r')"
    by simp
  then have "4 * (endp_r r' - p') + label_rank l' < 4 * (endp_r r - p) + label_rank l"
    by (cases l)
       (auto simp: bind_eq_Some_conv cell_store_def incr_count_def split: if_splits)
  then show "((mem, l', p', cs', cell', r'), (mem, l, p, cs, cell, r))
        \<in> measure (\<lambda>(mem, l, p, cs, cell, r). 4 * (endp_r r - p) + label_rank l)"
    by simp
qed simp

declare try_parse_from.simps [simp del]

text \<open>
  \<^verbatim>\<open>try_parse\<close> proper: \<^verbatim>\<open>p = p_\<close>, \<^verbatim>\<open>cell = &row_.cells[0]\<close>, \<^verbatim>\<open>row_.count = 0\<close>, and control
  enters at \<^verbatim>\<open>newline_skip\<close>. The local \<^verbatim>\<open>cell_start\<close> is not initialised, and is assigned
  before it is read.
\<close>

definition try_parse :: "CsvReader \<Rightarrow> (CsmTryParseReturnType \<times> CsvReader) option" where
  "try_parse r =
     try_parse_from (StreamCursor_mem (stream r)) L_newline_skip (p_r r) 0 0
       (r\<lparr> row := (row r)\<lparr> count := 0 \<rparr> \<rparr>)"

text \<open>\<^verbatim>\<open>row_.cells.resize(n)\<close>: new elements are value-initialised.\<close>

definition cells_resize :: "CsvCell list \<Rightarrow> nat \<Rightarrow> CsvCell list" where
  "cells_resize xs n = take n xs @ replicate (n - length xs) \<lparr> ptr = None, size_c = 0, escaped = False \<rparr>"

text \<open>
  \<^verbatim>\<open>read_row\<close>. What a call of \<^verbatim>\<open>read_row\<close> gives when it returns: the boolean and the
  reader after the call, or an access outside an allocation.
\<close>

datatype read_row_result = OutOfBounds | is_Row: Row (returned: bool) (reader_after: CsvReader)

text \<open>
  One pass through the body of the \<^verbatim>\<open>do ... while\<close> loop: either \<^verbatim>\<open>read_row\<close> returns
  (\<open>Inl\<close>), or the body is entered again (\<open>Inr\<close>), on a successful \<^verbatim>\<open>fill\<close> through the loop
  condition and on an overflow through \<^verbatim>\<open>return read_row()\<close>, which starts the same body
  afresh. The code after the loop runs when \<^verbatim>\<open>fill\<close> returns false.
\<close>

definition read_row_body :: "CsvReader \<Rightarrow> read_row_result + CsvReader" where
  "read_row_body r =
     (let p = StreamCursor_buf (stream r);
          r1 = r\<lparr> p_r := p, endp_r := p + StreamCursor_size (stream r) \<rparr>
      in case try_parse r1 of
           None \<Rightarrow> Inl OutOfBounds
         | Some (kCsmTryParseOkay, r2) \<Rightarrow>
             Inl (Row True (r2\<lparr> stream := StreamCursor_consume (stream r2) (p_r r2 - p) \<rparr>))
         | Some (kCsmTryParseOverflow, r2) \<Rightarrow>
             Inr (r2\<lparr> row := (row r2)\<lparr> cells := cells_resize (cells (row r2))
                                                   (2 * length (cells (row r2))) \<rparr> \<rparr>)
         | Some (kCsmTryParseUnderrun, r2) \<Rightarrow>
             (case StreamCursor_fill (stream r2) of
                (True, s') \<Rightarrow> Inr (r2\<lparr> stream := s' \<rparr>)
              | (False, s') \<Rightarrow>
                  if count (row r2) \<noteq> 0 \<and> yield_incomplete_row r2
                  then Inl (Row True (r2\<lparr> stream := StreamCursor_consume s' (endp_r r2 - p) \<rparr>))
                  else Inl (Row False (r2\<lparr> stream := s' \<rparr>))))"

text \<open>\<open>None\<close> is a call of \<^verbatim>\<open>read_row\<close> that never returns.\<close>

partial_function (option) read_row :: "CsvReader \<Rightarrow> read_row_result option" where
  "read_row r = (case read_row_body r of Inl res \<Rightarrow> Some res | Inr r' \<Rightarrow> read_row r')"

declare read_row.simps [code]




section \<open>Predicates used in the statements\<close>

text \<open>The margin the cursor contract asks for: sixteen allocated bytes past \<^verbatim>\<open>write_pos_\<close>.\<close>

definition margin_ok :: "FdStreamCursor \<Rightarrow> bool" where
  "margin_ok c \<longleftrightarrow> write_pos c + 16 \<le> length (vec c)"

text \<open>
  The readers of the default dialect whose descriptor is at end of file while the three
  bytes \<^verbatim>\<open>a,b\<close> of an unterminated row wait unread at the front of the buffer.
\<close>

definition stuck :: "bool \<Rightarrow> CsvReader \<Rightarrow> bool" where
  "stuck sse r \<longleftrightarrow>
     stream r = Fd \<lparr> vec = 0x61 # 0x2C # 0x62 # replicate 131069 0,
                      read_pos = 0, write_pos = 3, fd = [] \<rparr>
     \<and> delimiter r = 0x2C \<and> quotechar r = 0x22 \<and> escapechar r = 0
     \<and> StringSpanner_new sse 0x22 0 0 0 = Some (quoted_cell_spanner r)
     \<and> StringSpanner_new sse 0x2C CR LF 0 = Some (unquoted_cell_spanner r)
     \<and> length (cells (row r)) = 32"

text \<open>
  What a caller sees of a row: the cells \<open>0 .. count - 1\<close>, each decoded by \<^verbatim>\<open>as_str\<close> with the
  escape and quote characters of the parser.
\<close>

definition decoded_row :: "CsvReader \<Rightarrow> byte list list" where
  "decoded_row r =
     map (\<lambda>c. as_str (StreamCursor_mem (stream r)) c (escapechar r) (quotechar r))
       (take (count (row r)) (cells (row r)))"

fun row_view :: "read_row_result \<Rightarrow> (bool \<times> byte list list) option" where
  "row_view OutOfBounds = None"
| "row_view (Row b r) = Some (b, decoded_row r)"

text \<open>
  A reader whose two spanners are the ones its constructor builds from its delimiter,
  quote and escape characters, in the build \<open>sse\<close>.
\<close>

definition well_formed :: "bool \<Rightarrow> CsvReader \<Rightarrow> bool" where
  "well_formed sse r \<longleftrightarrow>
     StringSpanner_new sse (quotechar r) (escapechar r) 0 0 = Some (quoted_cell_spanner r)
     \<and> StringSpanner_new sse (delimiter r) CR LF (escapechar r) = Some (unquoted_cell_spanner r)"

text \<open>
  A byte that makes the parser mark a cell as escaped: a non-zero byte equal to the quote
  or the escape character.
\<close>

definition trigger :: "CsvReader \<Rightarrow> byte \<Rightarrow> bool" where
  "trigger r c \<longleftrightarrow> c \<noteq> 0 \<and> (c = quotechar r \<or> c = escapechar r)"

text \<open>
  A cell closed by a delimiter or a line terminator: it points into the bytes parsed,
  and if it is marked escaped its bytes hold a trigger.
\<close>

definition cell_done :: "CsvReader \<Rightarrow> byte list \<Rightarrow> CsvCell \<Rightarrow> bool" where
  "cell_done r mem c \<longleftrightarrow>
     (\<exists>q. ptr c = Some q \<and> p_r r \<le> q \<and> q + size_c c < endp_r r \<and> q + size_c c < length mem
        \<and> (escaped c \<longrightarrow> (\<exists>m. q \<le> m \<and> m < q + size_c c \<and> trigger r (mem ! m))))"

text \<open>Everything of a reader but its row, its position \<^verbatim>\<open>p_\<close> and the flag \<^verbatim>\<open>in_newline_skip\<close>.\<close>

definition same_config :: "CsvReader \<Rightarrow> CsvReader \<Rightarrow> bool" where
  "same_config r r0 \<longleftrightarrow>
     stream r = stream r0 \<and> endp_r r = endp_r r0
     \<and> delimiter r = delimiter r0 \<and> quotechar r = quotechar r0 \<and> escapechar r = escapechar r0
     \<and> yield_incomplete_row r = yield_incomplete_row r0
     \<and> quoted_cell_spanner r = quoted_cell_spanner r0
     \<and> unquoted_cell_spanner r = unquoted_cell_spanner r0"

text \<open>
  The invariant of \<^verbatim>\<open>try_parse\<close> at each label, for a run that started from the reader \<open>r0\<close>.
\<close>

definition label_inv :: "CsvReader \<Rightarrow> byte list \<Rightarrow> label \<Rightarrow> nat \<Rightarrow> nat \<Rightarrow> nat \<Rightarrow> CsvReader \<Rightarrow> bool" where
  "label_inv r0 mem l p cs cell r \<longleftrightarrow>
     (case l of
        L_newline_skip \<Rightarrow> cell = 0
      | L_cell_start \<Rightarrow>
          (cell = 0 \<and> p < length mem \<and> mem ! p \<noteq> CR \<and> mem ! p \<noteq> LF)
          \<or> (1 \<le> cell \<and> p_r r0 < p \<and> p - 1 < length mem \<and> mem ! (p - 1) = delimiter r0)
      | L_in_quoted_cell \<Rightarrow>
          p_r r0 \<le> cs \<and> cs \<le> p
          \<and> (escaped (cells (row r) ! cell) \<longrightarrow> (\<exists>m. cs \<le> m \<and> m + 2 \<le> p \<and> trigger r0 (mem ! m)))
      | L_in_escape_or_end_of_quoted_cell \<Rightarrow>
          p_r r0 \<le> cs \<and> cs < p \<and> p - 1 < length mem \<and> trigger r0 (mem ! (p - 1))
          \<and> (escaped (cells (row r) ! cell) \<longrightarrow> (\<exists>m. cs \<le> m \<and> m + 3 \<le> p \<and> trigger r0 (mem ! m)))
      | L_in_unquoted_cell \<Rightarrow>
          p_r r0 \<le> cs \<and> cs \<le> p
          \<and> (escaped (cells (row r) ! cell) \<longrightarrow> (\<exists>m. cs \<le> m \<and> m < p \<and> trigger r0 (mem ! m)))
      | L_in_escape_or_end_of_unquoted_cell \<Rightarrow>
          p_r r0 \<le> cs \<and> cs \<le> p \<and> p < length mem
          \<and> mem ! p \<in> {delimiter r0, CR, LF, escapechar r0} - {0}
          \<and> (escaped (cells (row r) ! cell) \<longrightarrow> (\<exists>m. cs \<le> m \<and> m < p \<and> trigger r0 (mem ! m))))"

definition tp_inv :: "CsvReader \<Rightarrow> byte list \<Rightarrow> label \<Rightarrow> nat \<Rightarrow> nat \<Rightarrow> nat \<Rightarrow> CsvReader \<Rightarrow> bool" where
  "tp_inv r0 mem l p cs cell r \<longleftrightarrow>
     same_config r r0 \<and> p_r r = p_r r0
     \<and> length (cells (row r)) = length (cells (row r0))
     \<and> cell = count (row r) \<and> cell < length (cells (row r))
     \<and> p_r r0 \<le> p
     \<and> (\<forall>i<cell. cell_done r0 mem (cells (row r) ! i))
     \<and> label_inv r0 mem l p cs cell r"

text \<open>What holds of the result of \<^verbatim>\<open>try_parse\<close>.\<close>

definition final_empty_cell :: "CsvReader \<Rightarrow> byte list \<Rightarrow> CsvReader \<Rightarrow> bool" where
  "final_empty_cell r0 mem r' \<longleftrightarrow>
     ptr (cells (row r') ! (count (row r') - 1)) = None
     \<and> size_c (cells (row r') ! (count (row r') - 1)) = 0
     \<and> \<not> escaped (cells (row r') ! (count (row r') - 1))
     \<and> 2 \<le> count (row r') \<and> p_r r0 + 2 \<le> p_r r'
     \<and> mem ! (p_r r' - 2) = delimiter r0"

definition tp_post :: "CsvReader \<Rightarrow> byte list \<Rightarrow> CsmTryParseReturnType \<Rightarrow> CsvReader \<Rightarrow> bool" where
  "tp_post r0 mem rc r' \<longleftrightarrow>
     same_config r' r0
     \<and> length (cells (row r')) = length (cells (row r0))
     \<and> count (row r') \<le> length (cells (row r'))
     \<and> (rc = kCsmTryParseOverflow \<longrightarrow> count (row r') = length (cells (row r')))
     \<and> (rc \<noteq> kCsmTryParseOkay \<longrightarrow>
           p_r r' = p_r r0 \<and> (\<forall>i<count (row r'). cell_done r0 mem (cells (row r') ! i)))
     \<and> (rc = kCsmTryParseOkay \<longrightarrow>
           p_r r0 < p_r r' \<and> p_r r' \<le> endp_r r0 \<and> p_r r' \<le> length mem
           \<and> (mem ! (p_r r' - 1) = CR \<or> mem ! (p_r r' - 1) = LF)
           \<and> 1 \<le> count (row r')
           \<and> (\<forall>i<count (row r') - 1. cell_done r0 mem (cells (row r') ! i))
           \<and> (cell_done r0 mem (cells (row r') ! (count (row r') - 1))
                \<or> final_empty_cell r0 mem r'))"

text \<open>
  For the examples: a reader of the default dialect (comma, double quote, no escape
  character, \<^verbatim>\<open>yield_incomplete_row\<close> off) over a mapped file with pages of 4096 bytes, and
  the reader after one call of \<^verbatim>\<open>try_parse\<close>.
\<close>

definition example_reader :: "bool \<Rightarrow> byte list \<Rightarrow> CsvReader" where
  "example_reader sse input =
     the (CsvReader_new sse (Mapped (MappedFileCursor_open 4096 input)) 0x2C 0x22 0 False)"

definition example_parsed :: "bool \<Rightarrow> byte list \<Rightarrow> CsvReader" where
  "example_parsed sse input = snd (the (try_parse (example_reader sse input)))"

text \<open>The same reader with \<^verbatim>\<open>yield_incomplete_row\<close> on.\<close>

definition incomplete_row_reader :: "bool \<Rightarrow> byte list \<Rightarrow> CsvReader" where
  "incomplete_row_reader sse input =
     the (CsvReader_new sse (Mapped (MappedFileCursor_open 4096 input)) 0x2C 0x22 0 True)"

text \<open>
  The bytes a cursor holds that have not been consumed, \<^verbatim>\<open>buf()[0 .. size())\<close>, and the
  cursors whose positions are in order and inside their memory.
\<close>

definition StreamCursor_unread :: "StreamCursor \<Rightarrow> byte list" where
  "StreamCursor_unread s = take (StreamCursor_size s) (drop (StreamCursor_buf s) (StreamCursor_mem s))"

fun cursor_ok :: "StreamCursor \<Rightarrow> bool" where
  "cursor_ok (Mapped c) \<longleftrightarrow> mf_p c \<le> mf_endp c \<and> mf_endp c \<le> length (mapping c)"
| "cursor_ok (Fd c) \<longleftrightarrow> read_pos c \<le> write_pos c \<and> write_pos c \<le> length (vec c)"

section \<open>The grammar of the specification, byte by byte\<close>

text \<open>
  The state machine of the specification (its table of states and transitions), read one
  byte at a time instead of sixteen, as the reference the parser is compared with. The
  bulk scans stop at the non-zero bytes of the two target sets; the state after an
  unquoted break is the state \<open>InUnquoted\<close> looking at the break byte. An event says what
  the byte did: nothing, closed a cell, finished a row, or was a line terminator skipped
  at the start of a row.
\<close>

datatype spec_state = NewlineSkip | CellStart | InQuoted | AfterQuote | InUnquoted

datatype spec_event = Plain | CellClosed | RowFinished | Skipped

fun spec_unquoted :: "byte \<Rightarrow> byte \<Rightarrow> byte \<Rightarrow> byte \<Rightarrow> spec_state \<times> spec_event" where
  "spec_unquoted d q e c =
     (if c = CR \<or> c = LF \<or> (c \<noteq> 0 \<and> (c = d \<or> c = e))
      then (if c = d then (CellStart, CellClosed)
            else if c = CR \<or> c = LF then (NewlineSkip, RowFinished)
            else (InUnquoted, Plain))
      else (InUnquoted, Plain))"

fun spec_cell_start :: "byte \<Rightarrow> byte \<Rightarrow> byte \<Rightarrow> byte \<Rightarrow> spec_state \<times> spec_event" where
  "spec_cell_start d q e c =
     (if c = CR \<or> c = LF then (NewlineSkip, RowFinished)
      else if c = q then (InQuoted, Plain)
      else spec_unquoted d q e c)"

fun spec_step :: "byte \<Rightarrow> byte \<Rightarrow> byte \<Rightarrow> spec_state \<Rightarrow> byte \<Rightarrow> spec_state \<times> spec_event" where
  "spec_step d q e NewlineSkip c =
     (if c = CR \<or> c = LF then (NewlineSkip, Skipped) else spec_cell_start d q e c)"
| "spec_step d q e CellStart c = spec_cell_start d q e c"
| "spec_step d q e InQuoted c =
     (if c \<noteq> 0 \<and> (c = q \<or> c = e) then (AfterQuote, Plain) else (InQuoted, Plain))"
| "spec_step d q e AfterQuote c =
     (if c = d then (CellStart, CellClosed)
      else if c = CR \<or> c = LF then (NewlineSkip, RowFinished)
      else (InQuoted, Plain))"
| "spec_step d q e InUnquoted c = spec_unquoted d q e c"

text \<open>
  The scan of an input from a state, with \<open>k\<close> cells of the current row closed so far:
  the state at the end of the input, the number of closed cells of the row then under way,
  the number of rows finished and the number of line terminators skipped.
\<close>

fun spec_scan ::
  "byte \<Rightarrow> byte \<Rightarrow> byte \<Rightarrow> spec_state \<Rightarrow> nat \<Rightarrow> byte list \<Rightarrow> spec_state \<times> nat \<times> nat \<times> nat" where
  "spec_scan d q e st k [] = (st, k, 0, 0)"
| "spec_scan d q e st k (c # bs) =
     (case spec_step d q e st c of
        (st', Plain) \<Rightarrow> spec_scan d q e st' k bs
      | (st', CellClosed) \<Rightarrow> spec_scan d q e st' (k + 1) bs
      | (st', RowFinished) \<Rightarrow>
          (case spec_scan d q e st' 0 bs of (s, k', f, sk) \<Rightarrow> (s, k', f + 1, sk))
      | (st', Skipped) \<Rightarrow>
          (case spec_scan d q e st' k bs of (s, k', f, sk) \<Rightarrow> (s, k', f, sk + 1)))"


definition closed_cells :: "spec_state \<times> nat \<times> nat \<times> nat \<Rightarrow> nat" where
  "closed_cells x = fst (snd x)"

definition rows_finished :: "spec_state \<times> nat \<times> nat \<times> nat \<Rightarrow> nat" where
  "rows_finished x = fst (snd (snd x))"




text \<open>The number of rows still to come from a state of the scan, as the parser emits them.\<close>

definition rows_to_come ::
  "byte \<Rightarrow> byte \<Rightarrow> byte \<Rightarrow> bool \<Rightarrow> spec_state \<Rightarrow> nat \<Rightarrow> byte list \<Rightarrow> nat" where
  "rows_to_come d q e yield st k bs =
     rows_finished (spec_scan d q e st k bs)
     + (if yield \<and> 0 < closed_cells (spec_scan d q e st k bs) then 1 else 0)"








section \<open>Properties of the spanners\<close>

lemma mod_shift_once: "(m::int) \<le> x \<Longrightarrow> x < 2 * m \<Longrightarrow> x mod m = x - m"
proof -
  assume a: "m \<le> x" "x < 2 * m"
  have "x mod m = (x - m) mod m" by (simp add: minus_mod_self2)
  also have "\<dots> = x - m" using a by (intro mod_pos_pos_trivial) simp_all
  finally show ?thesis .
qed

lemma sint_byte: "sint (c :: byte) = (if uint c < 128 then uint c else uint c - 256)"
proof -
  have b: "0 \<le> uint c" "uint c < 256" using uint_bounded [of c] by simp_all
  have e: "sint c = (uint c + 128) mod 256 - 128"
    by (simp add: sint_uint signed_take_bit_eq_take_bit_shift take_bit_eq_mod)
  show ?thesis
  proof (cases "uint c < 128")
    case True
    with b have "(uint c + 128) mod 256 = uint c + 128" by (intro mod_pos_pos_trivial) simp_all
    with e True show ?thesis by simp
  next
    case False
    with b have "(uint c + 128) mod 256 = uint c + 128 - 256" by (intro mod_shift_once) simp_all
    with e False show ?thesis by simp
  qed
qed

lemma uint_unsigned_of_char:
  "uint (unsigned_of_char c) = (if uint c < 128 then uint c else uint c + 4294967040)"
proof -
  have b: "0 \<le> uint c" "uint c < 256" using uint_bounded [of c] by simp_all
  have "uint (unsigned_of_char c) = sint c mod 2 ^ 32"
    unfolding unsigned_of_char_def scast_eq uint_word_of_int by simp
  then have e: "uint (unsigned_of_char c) = sint c mod 4294967296" by simp
  show ?thesis
  proof (cases "uint c < 128")
    case True
    with b have "uint c mod 4294967296 = uint c" by (intro mod_pos_pos_trivial) simp_all
    with e True show ?thesis by (simp add: sint_byte)
  next
    case False
    have "(uint c - 256) mod 4294967296 = (uint c - 256 + 4294967296) mod 4294967296"
      by (simp only: mod_add_self2)
    also have "\<dots> = uint c - 256 + 4294967296" using b False by (intro mod_pos_pos_trivial) simp_all
    finally show ?thesis using e False by (simp add: sint_byte)
  qed
qed

lemma unsigned_of_char_lt: "unsigned_of_char c < 256 \<longleftrightarrow> c < 0x80"
  using uint_bounded [of c] by (simp add: word_less_def uint_unsigned_of_char)

lemma unat_unsigned_of_char: "c < 0x80 \<Longrightarrow> unat (unsigned_of_char c) = unat c"
  by (simp only: unat_eq_nat_uint uint_unsigned_of_char word_less_def) simp

lemma charset_store_Some:
  "charset_store cs i v = Some cs' \<longleftrightarrow> i < 256 \<and> cs' = cs[unat i := v]"
  by (auto simp: charset_store_def)

lemma StringSpannerFallback_Some:
  "StringSpannerFallback c1 c2 c3 c4 = Some cs \<longleftrightarrow>
     c1 < 0x80 \<and> c2 < 0x80 \<and> c3 < 0x80 \<and> c4 < 0x80 \<and>
     cs = (replicate 256 0)[unat c1 := 1, unat c2 := 1, unat c3 := 1, unat c4 := 1, 0 := 0]"
  by (auto simp: StringSpannerFallback_def bind_eq_Some_conv charset_store_Some
      unsigned_of_char_lt unat_unsigned_of_char)

lemma unat_byte_lt: "unat (b :: byte) < 256"
  using unsigned_less [of b, where ?'a = nat] by simp

lemma fallback_charset_nth:
  assumes "StringSpannerFallback c1 c2 c3 c4 = Some cs"
  shows "cs ! unat b \<noteq> 0 \<longleftrightarrow> b \<noteq> 0 \<and> b \<in> {c1, c2, c3, c4}"
proof -
  have cs: "cs = (replicate 256 0)[unat c1 := 1, unat c2 := 1, unat c3 := 1, unat c4 := 1, 0 := 0]"
    using assms by (simp add: StringSpannerFallback_Some)
  have z: "unat b = 0 \<longleftrightarrow> b = 0" by (simp add: unat_eq_0)
  have e: "\<And>c d :: byte. unat c = unat d \<longleftrightarrow> c = d" by (simp add: word_unat_eq_iff)
  show ?thesis
    unfolding cs using unat_byte_lt [of b] z
    by (auto simp: nth_list_update e unat_byte_lt)
qed

lemma peek_Some: "peek mem i = Some b \<longleftrightarrow> i < length mem \<and> b = mem ! i"
  by (auto simp: peek_def)

lemma peek_None: "peek mem i = None \<longleftrightarrow> length mem \<le> i"
  by (auto simp: peek_def)

declare span_loop.simps [simp del]

lemma span_loop_unfold:
  "span_loop cs mem s p = Some r \<longleftrightarrow>
     (is_match cs mem (s + p) \<and> r = p) \<or>
     (no_match cs mem (s + p) \<and> is_match cs mem (s + p + 1) \<and> r = p + 1) \<or>
     (no_match cs mem (s + p) \<and> no_match cs mem (s + p + 1) \<and> is_match cs mem (s + p + 2) \<and> r = p + 2) \<or>
     (no_match cs mem (s + p) \<and> no_match cs mem (s + p + 1) \<and> no_match cs mem (s + p + 2)
        \<and> is_match cs mem (s + p + 3) \<and> r = p + 3) \<or>
     (no_match cs mem (s + p) \<and> no_match cs mem (s + p + 1) \<and> no_match cs mem (s + p + 2)
        \<and> no_match cs mem (s + p + 3)
        \<and> (if p + 4 < 16 then span_loop cs mem s (p + 4) = Some r else r = p + 4))"
  by (subst span_loop.simps)
     (auto simp: bind_eq_Some_conv peek_Some no_match_def is_match_def)

lemma four_cases: "p \<le> i \<Longrightarrow> i < p + 4 \<Longrightarrow> i = p \<or> i = p + 1 \<or> i = p + 2 \<or> i = p + (3::nat)"
  by arith

lemma nm_range1: "p \<le> i \<Longrightarrow> i < p + 1 \<Longrightarrow> i = (p::nat)"
  by arith
lemma nm_range2: "p \<le> i \<Longrightarrow> i < p + 2 \<Longrightarrow> i = (p::nat) \<or> i = p + 1"
  by arith
lemma nm_range3: "p \<le> i \<Longrightarrow> i < p + 3 \<Longrightarrow> i = (p::nat) \<or> i = p + 1 \<or> i = p + 2"
  by arith

lemma span_loop_Some:
  "span_loop cs mem s p = Some r \<Longrightarrow> 4 dvd p \<Longrightarrow> p < 16 \<Longrightarrow>
     p \<le> r \<and> r \<le> 16 \<and> (\<forall>i. p \<le> i \<and> i < r \<longrightarrow> no_match cs mem (s + i))
       \<and> (r < 16 \<longrightarrow> is_match cs mem (s + r))"
proof (induction cs mem s p arbitrary: r rule: span_loop.induct)
  case (1 cs mem s p)
  from \<open>4 dvd p\<close> \<open>p < 16\<close> have p12: "p + 4 \<le> 16" by presburger
  from "1.prems"(1) show ?case
    unfolding span_loop_unfold [of cs mem s p r]
  proof (elim disjE conjE)
    assume n: "no_match cs mem (s + p)" "no_match cs mem (s + p + 1)" "no_match cs mem (s + p + 2)"
      "no_match cs mem (s + p + 3)"
      and rest: "if p + 4 < 16 then span_loop cs mem s (p + 4) = Some r else r = p + 4"
    have first4: "no_match cs mem (s + i)" if "p \<le> i" "i < p + 4" for i
      using four_cases [OF that] n by (auto simp: add.assoc)
    show ?thesis
    proof (cases "p + 4 < 16")
      case True
      with rest have call: "span_loop cs mem s (p + 4) = Some r" by simp
      have d: "4 dvd (p + 4)" using \<open>4 dvd p\<close> by simp
      have peeks: "peek mem (s + p) = Some (mem ! (s + p))" "peek mem (s + p + 1) = Some (mem ! (s + p + 1))"
        "peek mem (s + p + 2) = Some (mem ! (s + p + 2))" "peek mem (s + p + 3) = Some (mem ! (s + p + 3))"
        using n by (simp_all add: peek_Some no_match_def)
      have nz: "\<not> cs ! unat (mem ! (s + p)) \<noteq> 0" "\<not> cs ! unat (mem ! (s + p + 1)) \<noteq> 0"
        "\<not> cs ! unat (mem ! (s + p + 2)) \<noteq> 0" "\<not> cs ! unat (mem ! (s + p + 3)) \<noteq> 0"
        using n by (simp_all add: no_match_def)
      from "1.IH" [OF peeks(1) nz(1) peeks(2) nz(2) peeks(3) nz(3) peeks(4) nz(4) True call d True]
      have ih: "p + 4 \<le> r" "r \<le> 16" "\<forall>i. p + 4 \<le> i \<and> i < r \<longrightarrow> no_match cs mem (s + i)"
        "r < 16 \<longrightarrow> is_match cs mem (s + r)" by simp_all
      have "no_match cs mem (s + i)" if "p \<le> i" "i < r" for i
        using that first4 [of i] ih(3) by (cases "i < p + 4") auto
      with ih show ?thesis by auto
    next
      case False
      with rest p12 have "r = 16" "p + 4 = 16" by simp_all
      with first4 show ?thesis by auto
    qed
  next
    assume "is_match cs mem (s + p)" "r = p"
    with p12 show ?thesis by auto
  next
    assume "no_match cs mem (s + p)" "is_match cs mem (s + p + 1)" "r = p + 1"
    with p12 show ?thesis by (auto simp: add.assoc dest: nm_range1)
  next
    assume "no_match cs mem (s + p)" "no_match cs mem (s + p + 1)" "is_match cs mem (s + p + 2)" "r = p + 2"
    with p12 show ?thesis by (auto simp: add.assoc dest: nm_range2)
  next
    assume "no_match cs mem (s + p)" "no_match cs mem (s + p + 1)" "no_match cs mem (s + p + 2)"
      "is_match cs mem (s + p + 3)" "r = p + 3"
    with p12 show ?thesis by (auto simp: add.assoc dest: nm_range3)
  qed
qed

lemma mm_cmpistri_spec:
  "mm_cmpistri a b \<le> 16 \<and> (\<forall>j < mm_cmpistri a b. \<not> IntRes1 a b j)
     \<and> (mm_cmpistri a b < 16 \<longrightarrow> IntRes1 a b (mm_cmpistri a b))"
proof (cases "List.find (IntRes1 a b) [0..<16]")
  case None
  then have r: "mm_cmpistri a b = 16" by (simp add: mm_cmpistri_def)
  from None have "\<forall>j<16. \<not> IntRes1 a b j" by (auto simp: find_None_iff)
  with r show ?thesis by simp
next
  case (Some j)
  then have "j < 16 \<and> IntRes1 a b j \<and> (\<forall>k<j. \<not> IntRes1 a b k)"
    by (auto simp: find_Some_iff)
  moreover from Some have "mm_cmpistri a b = j" by (simp add: mm_cmpistri_def)
  ultimately show ?thesis by simp
qed

lemma implicit_length_le: "implicit_length v \<le> length v"
  by (simp add: implicit_length_def length_takeWhile_le)

lemma implicit_take: "take (implicit_length v) v = takeWhile (\<lambda>c. c \<noteq> 0) v"
  unfolding implicit_length_def by (induction v) auto

lemma implicit_length_iff: "j < implicit_length v \<longleftrightarrow> j < length v \<and> (\<forall>i\<le>j. v ! i \<noteq> 0)"
  unfolding implicit_length_def
proof (induction v arbitrary: j)
  case Nil
  then show ?case by simp
next
  case (Cons x v)
  show ?case
  proof (cases j)
    case 0
    then show ?thesis by auto
  next
    case (Suc k)
    have "(\<forall>i\<le>Suc k. (x # v) ! i \<noteq> 0) \<longleftrightarrow> x \<noteq> 0 \<and> (\<forall>i\<le>k. v ! i \<noteq> 0)"
      by (auto simp: nth_Cons split: nat.splits)
    with Suc Cons.IH [of k] show ?thesis by auto
  qed
qed

lemma sse42_targets:
  "set (take (implicit_length (StringSpannerSse42 c1 c2 c3 c4)) (StringSpannerSse42 c1 c2 c3 c4))
     = set (takeWhile (\<lambda>c. c \<noteq> 0) [c1, c2, c3, c4])"
  by (simp add: implicit_take StringSpannerSse42_def)

lemma loadu_nth: "mm_loadu_si128 mem s = Some w \<Longrightarrow> length w = 16 \<and> (\<forall>j<16. w ! j = mem ! (s + j)) \<and> s + 16 \<le> length mem"
  by (auto simp: mm_loadu_si128_def split: if_splits)

lemma span_loop_total:
  "s + 16 \<le> length mem \<Longrightarrow> 4 dvd p \<Longrightarrow> p < 16 \<Longrightarrow> \<exists>r. span_loop cs mem s p = Some r"
proof (induction cs mem s p rule: span_loop.induct)
  case (1 cs mem s p)
  from \<open>4 dvd p\<close> \<open>p < 16\<close> have p12: "p + 4 \<le> 16" by presburger
  with \<open>s + 16 \<le> length mem\<close> have inb: "s + p < length mem" "s + p + 1 < length mem"
    "s + p + 2 < length mem" "s + p + 3 < length mem" by simp_all
  then have dich: "is_match cs mem (s + p) \<or> no_match cs mem (s + p)"
    "is_match cs mem (s + p + 1) \<or> no_match cs mem (s + p + 1)"
    "is_match cs mem (s + p + 2) \<or> no_match cs mem (s + p + 2)"
    "is_match cs mem (s + p + 3) \<or> no_match cs mem (s + p + 3)"
    by (auto simp: is_match_def no_match_def)
  consider (m0) "is_match cs mem (s + p)"
    | (m1) "no_match cs mem (s + p)" "is_match cs mem (s + p + 1)"
    | (m2) "no_match cs mem (s + p)" "no_match cs mem (s + p + 1)" "is_match cs mem (s + p + 2)"
    | (m3) "no_match cs mem (s + p)" "no_match cs mem (s + p + 1)" "no_match cs mem (s + p + 2)"
        "is_match cs mem (s + p + 3)"
    | (m4) "no_match cs mem (s + p)" "no_match cs mem (s + p + 1)" "no_match cs mem (s + p + 2)"
        "no_match cs mem (s + p + 3)"
    using dich by blast
  then show ?case
  proof cases
    case m0
    then have "span_loop cs mem s p = Some p" by (subst span_loop_unfold) simp
    then show ?thesis ..
  next
    case m1
    then have "span_loop cs mem s p = Some (p + 1)" by (subst span_loop_unfold) simp
    then show ?thesis ..
  next
    case m2
    then have "span_loop cs mem s p = Some (p + 2)" by (subst span_loop_unfold) simp
    then show ?thesis ..
  next
    case m3
    then have "span_loop cs mem s p = Some (p + 3)" by (subst span_loop_unfold) simp
    then show ?thesis ..
  next
    case m4
    show ?thesis
    proof (cases "p + 4 < 16")
      case True
      then have d: "4 dvd (p + 4)" using \<open>4 dvd p\<close> by simp
      have peeks: "peek mem (s + p) = Some (mem ! (s + p))" "peek mem (s + p + 1) = Some (mem ! (s + p + 1))"
        "peek mem (s + p + 2) = Some (mem ! (s + p + 2))" "peek mem (s + p + 3) = Some (mem ! (s + p + 3))"
        using inb by (simp_all add: peek_Some)
      have nz: "\<not> cs ! unat (mem ! (s + p)) \<noteq> 0" "\<not> cs ! unat (mem ! (s + p + 1)) \<noteq> 0"
        "\<not> cs ! unat (mem ! (s + p + 2)) \<noteq> 0" "\<not> cs ! unat (mem ! (s + p + 3)) \<noteq> 0"
        using m4 by (simp_all add: no_match_def)
      from "1.IH" [OF peeks(1) nz(1) peeks(2) nz(2) peeks(3) nz(3) peeks(4) nz(4) True "1.prems"(1) d True]
      obtain r where r: "span_loop cs mem s (p + 4) = Some r" by blast
      with m4 True have "span_loop cs mem s p = Some r" by (subst span_loop_unfold) simp
      then show ?thesis ..
    next
      case False
      with m4 have "span_loop cs mem s p = Some (p + 4)"
        by (subst span_loop_unfold) simp
      then show ?thesis ..
    qed
  qed
qed

text \<open>What a constructed spanner returns, for either build.\<close>

lemma fallback_call_Some:
  assumes c: "StringSpannerFallback c1 c2 c3 c4 = Some cs"
    and r: "StringSpannerFallback_call cs mem s = Some r"
  shows "r \<le> 16"
    and "\<forall>i<r. s + i < length mem \<and> mem ! (s + i) \<notin> {c1, c2, c3, c4} - {0}"
    and "r < 16 \<longrightarrow> s + r < length mem \<and> mem ! (s + r) \<in> {c1, c2, c3, c4} - {0}"
proof -
  from r have "span_loop cs mem s 0 = Some r" by (simp add: StringSpannerFallback_call_def)
  from span_loop_Some [OF this]
  have *: "r \<le> 16" "\<forall>i<r. no_match cs mem (s + i)" "r < 16 \<longrightarrow> is_match cs mem (s + r)"
    by simp_all
  show "r \<le> 16" by fact
  show "\<forall>i<r. s + i < length mem \<and> mem ! (s + i) \<notin> {c1, c2, c3, c4} - {0}"
    using *(2) fallback_charset_nth [OF c] by (auto simp: no_match_def)
  show "r < 16 \<longrightarrow> s + r < length mem \<and> mem ! (s + r) \<in> {c1, c2, c3, c4} - {0}"
    using *(3) fallback_charset_nth [OF c] by (auto simp: is_match_def)
qed

lemma sse42_call_Some:
  assumes r: "StringSpannerSse42_call (StringSpannerSse42 c1 c2 c3 c4) mem s = Some r"
  shows "r \<le> 16" and "s + 16 \<le> length mem"
    and "r < 16 \<longrightarrow> mem ! (s + r) \<in> {c1, c2, c3, c4} - {0}"
proof -
  let ?v = "StringSpannerSse42 c1 c2 c3 c4"
  from r obtain w where w: "mm_loadu_si128 mem s = Some w" and rw: "r = mm_cmpistri ?v w"
    by (auto simp: StringSpannerSse42_call_def)
  from loadu_nth [OF w] have lw: "length w = 16" "\<forall>j<16. w ! j = mem ! (s + j)" "s + 16 \<le> length mem"
    by simp_all
  show "r \<le> 16" using mm_cmpistri_spec [of ?v w] rw by simp
  show "s + 16 \<le> length mem" by fact
  show "r < 16 \<longrightarrow> mem ! (s + r) \<in> {c1, c2, c3, c4} - {0}"
  proof
    assume lt: "r < 16"
    with mm_cmpistri_spec [of ?v w] rw have "IntRes1 ?v w r" by simp
    then have "w ! r \<in> set (takeWhile (\<lambda>c. c \<noteq> 0) [c1, c2, c3, c4])"
      by (simp add: IntRes1_def sse42_targets)
    then have "w ! r \<in> {c1, c2, c3, c4} - {0}"
      by (auto dest: set_takeWhileD)
    with lw(2) lt show "mem ! (s + r) \<in> {c1, c2, c3, c4} - {0}" by simp
  qed
qed

lemma StringSpanner_call_Some:
  assumes n: "StringSpanner_new sse c1 c2 c3 c4 = Some sp"
    and r: "StringSpanner_call sp mem s = Some r"
  shows "r \<le> 16 \<and> (r < 16 \<longrightarrow> s + r < length mem \<and> mem ! (s + r) \<in> {c1, c2, c3, c4} - {0})"
proof (cases sse)
  case True
  with n have sp: "sp = Sse42 (StringSpannerSse42 c1 c2 c3 c4)" by simp
  with r have "StringSpannerSse42_call (StringSpannerSse42 c1 c2 c3 c4) mem s = Some r" by simp
  from sse42_call_Some [OF this] show ?thesis by auto
next
  case False
  with n obtain cs where cs: "StringSpannerFallback c1 c2 c3 c4 = Some cs" and sp: "sp = Fallback cs"
    by auto
  with r have "StringSpannerFallback_call cs mem s = Some r" by simp
  from fallback_call_Some [OF cs this] show ?thesis by auto
qed

lemma first_target_index_unique:
  assumes "length w = 16" "r \<le> 16" "\<forall>i<r. w ! i \<notin> T" "r < 16 \<longrightarrow> w ! r \<in> T"
  shows "first_target_index T w = r"
proof -
  let ?k = "length (takeWhile (\<lambda>b. b \<notin> T) w)"
  have k: "first_target_index T w = ?k" using assms(1) by (simp add: first_target_index_def)
  have kle: "?k \<le> 16" using length_takeWhile_le [of "\<lambda>b. b \<notin> T" w] assms(1) by simp
  have "\<not> ?k < r"
  proof
    assume "?k < r"
    with assms have "w ! ?k \<notin> T" "?k < length w" by auto
    then show False using nth_length_takeWhile [of "\<lambda>b. b \<notin> T" w] by auto
  qed
  moreover have "\<not> r < ?k"
  proof
    assume lt: "r < ?k"
    with kle assms(4) have "w ! r \<in> T" by simp
    moreover from lt have "takeWhile (\<lambda>b. b \<notin> T) w ! r = w ! r" by (rule takeWhile_nth)
    moreover from lt have "takeWhile (\<lambda>b. b \<notin> T) w ! r \<in> set (takeWhile (\<lambda>b. b \<notin> T) w)"
      by (rule nth_mem)
    ultimately show False by (auto dest: set_takeWhileD)
  qed
  ultimately show ?thesis using k by simp
qed

lemma first_target_index_props:
  assumes "length w = 16"
  shows "first_target_index T w \<le> 16"
    and "\<forall>i < first_target_index T w. w ! i \<notin> T"
    and "first_target_index T w < 16 \<longrightarrow> w ! first_target_index T w \<in> T"
proof -
  let ?k = "length (takeWhile (\<lambda>b. b \<notin> T) w)"
  have k: "first_target_index T w = ?k" using assms(1) by (simp add: first_target_index_def)
  show "first_target_index T w \<le> 16"
    using length_takeWhile_le [of "\<lambda>b. b \<notin> T" w] assms(1) k by simp
  show "\<forall>i < first_target_index T w. w ! i \<notin> T"
  proof (intro allI impI)
    fix i assume "i < first_target_index T w"
    then have lt: "i < ?k" using k by simp
    then have "takeWhile (\<lambda>b. b \<notin> T) w ! i = w ! i" by (rule takeWhile_nth)
    moreover from lt have "takeWhile (\<lambda>b. b \<notin> T) w ! i \<in> set (takeWhile (\<lambda>b. b \<notin> T) w)"
      by (rule nth_mem)
    ultimately show "w ! i \<notin> T" by (auto dest: set_takeWhileD)
  qed
  show "first_target_index T w < 16 \<longrightarrow> w ! first_target_index T w \<in> T"
    using nth_length_takeWhile [of "\<lambda>b. b \<notin> T" w] assms k by auto
qed

lemma trailing_zero_targets:
  "(c1 = 0 \<longrightarrow> c2 = 0) \<and> (c2 = 0 \<longrightarrow> c3 = 0) \<and> (c3 = 0 \<longrightarrow> c4 = 0) \<Longrightarrow>
     set (takeWhile (\<lambda>c. c \<noteq> 0) [c1, c2, c3, c4 :: byte]) = {c1, c2, c3, c4} - {0}"
  by auto

subsection \<open>The zero byte is never a match\<close>

text \<open>
  Claim C9. A spanner never treats the zero byte as a target. For either build and for
  every four target bytes, zero among them or not: whenever a constructed spanner returns
  an offset below 16, that is, reports a match, the byte at that offset lies inside the
  memory read and is not the zero byte.
\<close>

theorem spanner_never_matches_NUL:
  "StringSpanner_span sse c1 c2 c3 c4 mem s = Some r \<Longrightarrow> r < 16 \<Longrightarrow>
     s + r < length mem \<and> mem ! (s + r) \<noteq> 0"
proof -
  assume a: "StringSpanner_span sse c1 c2 c3 c4 mem s = Some r" and lt: "r < 16"
  from a obtain sp where n: "StringSpanner_new sse c1 c2 c3 c4 = Some sp"
    and r: "StringSpanner_call sp mem s = Some r"
    by (auto simp: StringSpanner_span_def split: option.splits)
  from StringSpanner_call_Some [OF n r] lt show ?thesis by auto
qed

theorem spanner_never_matches_NUL_witness:
  "StringSpanner_span False 0x2C 0 0x0A 0 [0x61, 0, 0x0A, 0x62, 0, 0, 0, 0, 0, 0, 0, 0, 0, 0, 0, 0] 0 = Some 2
   \<and> (2 :: nat) < 16
   \<and> 0 + 2 < length [0x61, 0, 0x0A, 0x62, 0, 0, 0, 0, 0, 0, 0, 0, 0, 0, 0, 0 :: byte]
   \<and> [0x61, 0, 0x0A, 0x62, 0, 0, 0, 0, 0, 0, 0, 0, 0, 0, 0, 0 :: byte] ! (0 + 2) \<noteq> 0"
proof -
  have h: "StringSpanner_span False 0x2C 0 0x0A 0 [0x61, 0, 0x0A, 0x62, 0, 0, 0, 0, 0, 0, 0, 0, 0, 0, 0, 0] 0 = Some 2"
    by code_simp
  have l: "(2 :: nat) < 16" by simp
  from spanner_never_matches_NUL [OF h l] h l show ?thesis by simp
qed

subsection \<open>The scalar fallback against the SSE4.2 instruction\<close>

text \<open>
  Claim C7, as stated, fails, in three ways. PCMPISTRI takes the window as an
  implicit-length string, so a zero byte in the window hides every target behind it, while
  the table scan of the fallback goes on past the zero byte: with the default targets of
  the unquoted-cell spanner (comma, CR, LF and no escape character) and a window that
  starts with a zero byte followed by a comma, the fallback answers 1 and the instruction
  answers 16. The instruction takes the targets as an implicit-length string too, so a
  zero target hides the targets behind it: with the targets 0 and comma, in this order,
  and a comma at index 1 of the window, the fallback answers 1 and the instruction 16.
  And a target of 0x80 or above is negative as a \<^verbatim>\<open>char\<close>, so the constructor of the
  fallback stores outside its table and has no defined result, while the instruction
  finds the byte.
\<close>

theorem spanners_disagree:
  "StringSpanner_span False 0x2C 0x0D 0x0A 0
     [0, 0x2C, 0x61, 0x61, 0x61, 0x61, 0x61, 0x61, 0x61, 0x61, 0x61, 0x61, 0x61, 0x61, 0x61, 0x61] 0 = Some 1
   \<and> StringSpanner_span True 0x2C 0x0D 0x0A 0
     [0, 0x2C, 0x61, 0x61, 0x61, 0x61, 0x61, 0x61, 0x61, 0x61, 0x61, 0x61, 0x61, 0x61, 0x61, 0x61] 0 = Some 16
   \<and> StringSpanner_span False 0 0x2C 0 0
     [0x61, 0x2C, 0x61, 0x61, 0x61, 0x61, 0x61, 0x61, 0x61, 0x61, 0x61, 0x61, 0x61, 0x61, 0x61, 0x61] 0 = Some 1
   \<and> StringSpanner_span True 0 0x2C 0 0
     [0x61, 0x2C, 0x61, 0x61, 0x61, 0x61, 0x61, 0x61, 0x61, 0x61, 0x61, 0x61, 0x61, 0x61, 0x61, 0x61] 0 = Some 16
   \<and> StringSpanner_span False 0xA7 0x0D 0x0A 0
     [0x61, 0xA7, 0x61, 0x61, 0x61, 0x61, 0x61, 0x61, 0x61, 0x61, 0x61, 0x61, 0x61, 0x61, 0x61, 0x61] 0 = None
   \<and> StringSpanner_span True 0xA7 0x0D 0x0A 0
     [0x61, 0xA7, 0x61, 0x61, 0x61, 0x61, 0x61, 0x61, 0x61, 0x61, 0x61, 0x61, 0x61, 0x61, 0x61, 0x61] 0 = Some 1"
  by code_simp

text \<open>
  Claim C7, amended. For every 16-byte window in which no zero byte comes before the first
  target byte (a window without a target byte may hold zero bytes anywhere), and every four
  target bytes below 0x80 in which no zero comes before a non-zero target, the scalar
  fallback and the SSE4.2 spanner return the same result: the index of the first byte of
  the window equal to a non-zero target, or 16 if there is none.
\<close>

theorem spanners_agree:
  assumes len: "length w = 16"
    and ascii: "c1 < 0x80 \<and> c2 < 0x80 \<and> c3 < 0x80 \<and> c4 < 0x80"
    and trailing: "(c1 = 0 \<longrightarrow> c2 = 0) \<and> (c2 = 0 \<longrightarrow> c3 = 0) \<and> (c3 = 0 \<longrightarrow> c4 = 0)"
    and nonul: "first_target_index ({c1, c2, c3, c4} - {0}) w < 16 \<longrightarrow>
                  0 \<notin> set (take (first_target_index ({c1, c2, c3, c4} - {0}) w) w)"
  shows "StringSpanner_span False c1 c2 c3 c4 w 0 = Some (first_target_index ({c1, c2, c3, c4} - {0}) w)
       \<and> StringSpanner_span True c1 c2 c3 c4 w 0 = Some (first_target_index ({c1, c2, c3, c4} - {0}) w)"
proof -
  let ?T = "{c1, c2, c3, c4} - {0}"
  let ?k = "first_target_index ?T w"
  note fp = first_target_index_props [OF len, of ?T]
  \<comment> \<open>the scalar fallback\<close>
  from ascii obtain cs where cs: "StringSpannerFallback c1 c2 c3 c4 = Some cs"
    by (auto simp: StringSpannerFallback_Some)
  from span_loop_total [of 0 w 0 cs] len obtain rf where rf: "StringSpannerFallback_call cs w 0 = Some rf"
    by (auto simp: StringSpannerFallback_call_def)
  from fallback_call_Some [OF cs rf] have "rf \<le> 16" "\<forall>i<rf. w ! i \<notin> ?T" "rf < 16 \<longrightarrow> w ! rf \<in> ?T"
    by simp_all
  from first_target_index_unique [OF len this] have "?k = rf" .
  with cs rf have fb: "StringSpanner_span False c1 c2 c3 c4 w 0 = Some ?k"
    by (simp add: StringSpanner_span_def)
  \<comment> \<open>the SSE4.2 instruction\<close>
  let ?v = "StringSpannerSse42 c1 c2 c3 c4"
  let ?rs = "mm_cmpistri ?v w"
  have ld: "mm_loadu_si128 w 0 = Some w" using len by (simp add: mm_loadu_si128_def)
  have ir: "IntRes1 ?v w j \<longleftrightarrow> j < implicit_length w \<and> w ! j \<in> ?T" for j
    using trailing_zero_targets [OF trailing] by (simp add: IntRes1_def sse42_targets)
  note sp = mm_cmpistri_spec [of ?v w]
  have "\<forall>i<?rs. w ! i \<notin> ?T"
  proof (intro allI impI notI)
    fix i assume i: "i < ?rs" and m: "w ! i \<in> ?T"
    from sp i have i16: "i < 16" by simp
    from fp(2) m have ki: "?k \<le> i" by (meson not_le_imp_less)
    with i16 fp(3) have mk: "w ! ?k \<in> ?T" by simp
    have "w ! j \<noteq> 0" if "j \<le> ?k" for j
    proof (cases "j = ?k")
      case True
      with mk show ?thesis by auto
    next
      case False
      with that have "j < ?k" by simp
      moreover from ki i16 len have "?k \<le> length w" by simp
      ultimately have "w ! j \<in> set (take ?k w)"
        by (auto simp: in_set_conv_nth intro!: exI [of _ j])
      moreover from ki i16 have "?k < 16" by simp
      ultimately show ?thesis using nonul by metis
    qed
    with ki i16 len have "?k < implicit_length w" by (simp add: implicit_length_iff)
    with mk have "IntRes1 ?v w ?k" by (simp add: ir)
    with sp ki i show False by auto
  qed
  moreover have "?rs < 16 \<longrightarrow> w ! ?rs \<in> ?T" using sp by (auto simp: ir)
  moreover have "?rs \<le> 16" using sp by simp
  ultimately have "?k = ?rs" using first_target_index_unique [OF len, of ?rs ?T] by blast
  with ld have "StringSpanner_span True c1 c2 c3 c4 w 0 = Some ?k"
    by (simp add: StringSpanner_span_def StringSpannerSse42_call_def)
  with fb show ?thesis by simp
qed

theorem spanners_agree_witness:
  "length [0x61, 0x62, 0x2C, 0x63, 0x0A, 0, 0, 0, 0, 0, 0, 0, 0, 0, 0, 0 :: byte] = 16
   \<and> ((0x2C :: byte) < 0x80 \<and> (0x0D :: byte) < 0x80 \<and> (0x0A :: byte) < 0x80 \<and> (0 :: byte) < 0x80)
   \<and> StringSpanner_span False 0x2C 0x0D 0x0A 0
         [0x61, 0x62, 0x2C, 0x63, 0x0A, 0, 0, 0, 0, 0, 0, 0, 0, 0, 0, 0] 0 = Some 2
   \<and> StringSpanner_span True 0x2C 0x0D 0x0A 0
         [0x61, 0x62, 0x2C, 0x63, 0x0A, 0, 0, 0, 0, 0, 0, 0, 0, 0, 0, 0] 0 = Some 2
   \<and> StringSpanner_span False 0x2C 0x0D 0x0A 0
         [0x62, 0, 0, 0, 0, 0, 0, 0, 0, 0, 0, 0, 0, 0, 0, 0] 0 = Some 16
   \<and> StringSpanner_span True 0x2C 0x0D 0x0A 0
         [0x62, 0, 0, 0, 0, 0, 0, 0, 0, 0, 0, 0, 0, 0, 0, 0] 0 = Some 16"
proof -
  let ?w = "[0x61, 0x62, 0x2C, 0x63, 0x0A, 0, 0, 0, 0, 0, 0, 0, 0, 0, 0, 0 :: byte]"
  let ?v = "[0x62, 0, 0, 0, 0, 0, 0, 0, 0, 0, 0, 0, 0, 0, 0, 0 :: byte]"
  have k: "first_target_index ({0x2C, 0x0D, 0x0A, 0} - {0}) ?w = 2"
    by (simp add: first_target_index_def)
  have k': "first_target_index ({0x2C, 0x0D, 0x0A, 0} - {0}) ?v = 16"
    by (simp add: first_target_index_def)
  have len: "length ?w = 16"
    by simp
  have len': "length ?v = 16"
    by simp
  have ascii: "(0x2C :: byte) < 0x80 \<and> (0x0D :: byte) < 0x80 \<and> (0x0A :: byte) < 0x80 \<and> (0 :: byte) < 0x80"
    by simp
  have trailing: "((0x2C :: byte) = 0 \<longrightarrow> (0x0D :: byte) = 0) \<and> ((0x0D :: byte) = 0 \<longrightarrow> (0x0A :: byte) = 0)
      \<and> ((0x0A :: byte) = 0 \<longrightarrow> (0 :: byte) = 0)"
    by simp
  have nonul: "first_target_index ({0x2C, 0x0D, 0x0A, 0} - {0}) ?w < 16 \<longrightarrow>
      0 \<notin> set (take (first_target_index ({0x2C, 0x0D, 0x0A, 0} - {0}) ?w) ?w)"
    unfolding k by simp
  have nonul': "first_target_index ({0x2C, 0x0D, 0x0A, 0} - {0}) ?v < 16 \<longrightarrow>
      0 \<notin> set (take (first_target_index ({0x2C, 0x0D, 0x0A, 0} - {0}) ?v) ?v)"
    unfolding k' by simp
  from spanners_agree [OF len ascii trailing nonul] spanners_agree [OF len' ascii trailing nonul']
    len ascii show ?thesis
    unfolding k k' by simp
qed

section \<open>Properties of the buffered cursor\<close>

subsection \<open>The sixteen bytes past the write position\<close>

text \<open>
  Claim C4. The claim is that the buffer always extends at least sixteen bytes past
  \<^verbatim>\<open>write_pos_\<close>. Evaluated on a freshly constructed cursor whose descriptor delivers
  131072 bytes to the first read: the margin holds after construction, the read fills the
  whole vector, and after \<^verbatim>\<open>fill\<close> the write position equals the size of the vector, so no
  allocated byte lies past it.
\<close>

theorem fill_uses_up_the_margin:
  "margin_ok (FdStreamCursor_new [ReadData (replicate 131072 0x61)])
   \<and> fst (BufferedStreamCursor_fill (FdStreamCursor_new [ReadData (replicate 131072 0x61)])) = True
   \<and> write_pos (snd (BufferedStreamCursor_fill (FdStreamCursor_new [ReadData (replicate 131072 0x61)]))) = 131072
   \<and> length (vec (snd (BufferedStreamCursor_fill (FdStreamCursor_new [ReadData (replicate 131072 0x61)])))) = 131072
   \<and> \<not> margin_ok (snd (BufferedStreamCursor_fill (FdStreamCursor_new [ReadData (replicate 131072 0x61)])))"
  by (simp add: margin_ok_def BufferedStreamCursor_fill_def FdStreamCursor_new_def readmore_def ensure_def)

subsection \<open>What fill returns at end of input\<close>

text \<open>
  Claim C2. The claim is that \<^verbatim>\<open>fill\<close> returns true only when more bytes became available,
  and false at end of input. Evaluated on a cursor that has read the three bytes \<^verbatim>\<open>a,b\<close>
  and whose descriptor is then at end of file: the second \<^verbatim>\<open>fill\<close> returns true, and the
  number of available bytes is three before and after it.
\<close>

theorem fill_true_at_end_of_input:
  "fd (snd (BufferedStreamCursor_fill (FdStreamCursor_new [ReadData [0x61, 0x2C, 0x62]]))) = []
   \<and> BufferedStreamCursor_size (snd (BufferedStreamCursor_fill (FdStreamCursor_new [ReadData [0x61, 0x2C, 0x62]]))) = 3
   \<and> fst (BufferedStreamCursor_fill (snd (BufferedStreamCursor_fill (FdStreamCursor_new [ReadData [0x61, 0x2C, 0x62]])))) = True
   \<and> BufferedStreamCursor_size (snd (BufferedStreamCursor_fill (snd (BufferedStreamCursor_fill (FdStreamCursor_new [ReadData [0x61, 0x2C, 0x62]]))))) = 3"
  by (simp add: BufferedStreamCursor_fill_def FdStreamCursor_new_def readmore_def ensure_def BufferedStreamCursor_size_def)

section \<open>Evaluating the reader on concrete inputs\<close>

text \<open>Unfolding rules with which the simplifier runs the model on a given input.\<close>

lemmas sse42_eval = StringSpannerSse42_call_def mm_loadu_si128_def StringSpannerSse42_def
  mm_cmpistri_def IntRes1_def implicit_length_def takeWhile_replicate upt_rec

lemmas fallback_eval = StringSpannerFallback_def charset_store_def unsigned_of_char_def
  StringSpannerFallback_call_def span_loop.simps

lemmas cursor_eval = BufferedStreamCursor_buf_def BufferedStreamCursor_size_def
  BufferedStreamCursor_consume_def BufferedStreamCursor_fill_def readmore_def ensure_def
  MappedFileCursor_buf_def MappedFileCursor_size_def MappedFileCursor_consume_def
  MappedFileCursor_fill_def

lemmas parse_eval = read_row_body_def try_parse_def try_parse_from.simps peek_def cell_store_def incr_count_def
  CR_def LF_def

lemma replicate_32: "replicate 32 x = x # x # replicate 30 x"
  by (simp add: numeral_eq_Suc)

lemmas example_eval = example_reader_def example_parsed_def CsvReader_new_def
  MappedFileCursor_open_def CsvCursor_new_def replicate_32 well_formed_def

subsection \<open>A partial row at end of input, on the buffered cursor\<close>

lemma stuck_step:
  assumes "stuck sse r"
  shows "\<exists>r'. read_row_body r = Inr r' \<and> stuck sse r'"
proof (cases sse)
  case True
  with assms have q: "quoted_cell_spanner r = Sse42 (StringSpannerSse42 0x22 0 0 0)"
    and u: "unquoted_cell_spanner r = Sse42 (StringSpannerSse42 0x2C CR LF 0)"
    by (simp_all add: stuck_def)
  from assms True show ?thesis
    by (simp add: stuck_def q u parse_eval cursor_eval sse42_eval)
next
  case False
  with assms have q: "quoted_cell_spanner r = Fallback ((replicate 256 0)[34 := 1, 0 := 1, 0 := 1, 0 := 1, 0 := 0])"
    and u: "unquoted_cell_spanner r = Fallback ((replicate 256 0)[44 := 1, 13 := 1, 10 := 1, 0 := 1, 0 := 0])"
    by (simp_all add: stuck_def fallback_eval CR_def LF_def)
  from assms False show ?thesis
    by (simp add: stuck_def q u parse_eval cursor_eval fallback_eval)
qed

lemma stuck_never_returns:
  assumes "stuck sse r"
  shows "read_row r = None"
proof -
  have "\<not> stuck sse x" if "read_row x = Some y" for x y
  proof (rule read_row.raw_induct [where P = "\<lambda>x y. \<not> stuck sse x", OF _ that])
    fix rr :: "CsvReader \<Rightarrow> read_row_result option" and x y
    assume ih: "\<And>x y. rr x = Some y \<Longrightarrow> \<not> stuck sse x"
      and eq: "(case read_row_body x of Inl res \<Rightarrow> Some res | Inr r' \<Rightarrow> rr r') = Some y"
    show "\<not> stuck sse x"
    proof
      assume "stuck sse x"
      from stuck_step [OF this] obtain x' where b: "read_row_body x = Inr x'" and s: "stuck sse x'"
        by blast
      from eq b have "rr x' = Some y" by simp
      from ih [OF this] s show False by contradiction
    qed
  qed
  with assms show ?thesis by (cases "read_row r") auto
qed

text \<open>
  Claim C3. The claim is that \<^verbatim>\<open>read_row\<close> terminates on every input. Evaluated on a reader
  of the default dialect over a descriptor that delivers the three bytes \<^verbatim>\<open>a,b\<close> and is then
  at end of file, for either build and either value of \<^verbatim>\<open>yield_incomplete_row\<close>: the reader
  is constructed, and the call of \<^verbatim>\<open>read_row\<close> never returns.
\<close>

theorem read_row_never_returns:
  "map_option read_row
     (CsvReader_new sse (Fd (FdStreamCursor_new [ReadData [0x61, 0x2C, 0x62]])) 0x2C 0x22 0 yield)
   = Some None"
proof -
  obtain r0 where r0: "CsvReader_new sse (Fd (FdStreamCursor_new [ReadData [0x61, 0x2C, 0x62]])) 0x2C 0x22 0 yield = Some r0"
    by (cases sse) (simp_all add: CsvReader_new_def fallback_eval CR_def LF_def)
  have "\<exists>r1. read_row_body r0 = Inr r1 \<and> stuck sse r1"
    using r0
    by (cases sse)
       (auto simp add: CsvReader_new_def FdStreamCursor_new_def CsvCursor_new_def stuck_def
         parse_eval cursor_eval fallback_eval)
  then obtain r1 where b: "read_row_body r0 = Inr r1" and s: "stuck sse r1"
    by blast
  have "read_row r0 = read_row r1"
    by (subst read_row.simps) (simp add: b)
  with stuck_never_returns [OF s] r0 show ?thesis by simp
qed

subsection \<open>A partial row at end of input, on the mapped file\<close>

text \<open>
  Claim C1. The claim is that with \<^verbatim>\<open>yield_incomplete_row\<close> the input \<^verbatim>\<open>a,b\<close> without a
  line terminator gives one row whose decoded cells are \<^verbatim>\<open>a\<close> and \<^verbatim>\<open>b\<close>. Evaluated on a
  mapped file of these three bytes (page size 4096), for either build: \<^verbatim>\<open>read_row\<close> returns
  true, and the row holds the single cell \<^verbatim>\<open>a\<close>.
\<close>

theorem incomplete_row_loses_last_cell:
  "Option.bind
     (CsvReader_new sse (Mapped (MappedFileCursor_open 4096 [0x61, 0x2C, 0x62])) 0x2C 0x22 0 True)
     (map_option row_view \<circ> read_row)
   = Some (Some (True, [[0x61]]))"
proof -
  obtain r0 where r0: "CsvReader_new sse (Mapped (MappedFileCursor_open 4096 [0x61, 0x2C, 0x62])) 0x2C 0x22 0 True = Some r0"
    by (cases sse) (simp_all add: CsvReader_new_def fallback_eval CR_def LF_def)
  have "\<exists>r1. read_row_body r0 = Inl (Row True r1) \<and> decoded_row r1 = [[0x61]]"
    using r0
    by (cases sse)
       (auto simp add: CsvReader_new_def MappedFileCursor_open_def CsvCursor_new_def replicate_32
         parse_eval cursor_eval fallback_eval sse42_eval decoded_row_def as_str_def raw_bytes_def)
  then obtain r1 where b: "read_row_body r0 = Inl (Row True r1)" and d: "decoded_row r1 = [[0x61]]"
    by blast
  have "read_row r0 = Some (Row True r1)"
    by (subst read_row.simps) (simp add: b)
  with r0 d show ?thesis by simp
qed

section \<open>The invariant of try_parse\<close>

lemma try_parse_from_invariant:
  assumes "try_parse_from mem l p cs cell r = Some (rc, r')"
    and "I l p cs cell r"
    and "\<And>l p cs cell r l' p' cs' cell' r1.
           I l p cs cell r \<Longrightarrow> label_block mem l p cs cell r = Some (Goto l' p' cs' cell' r1)
             \<Longrightarrow> I l' p' cs' cell' r1"
    and "\<And>l p cs cell r. I l p cs cell r \<Longrightarrow> label_block mem l p cs cell r = Some (Return rc r') \<Longrightarrow> Q"
  shows Q
  using assms
proof (induction mem l p cs cell r rule: try_parse_from.induct)
  case (1 mem l p cs cell r)
  note run = "1.prems"(1) and init = "1.prems"(2) and goto = "1.prems"(3) and ret = "1.prems"(4)
  show ?case
  proof (cases "label_block mem l p cs cell r")
    case None
    with run show ?thesis by (subst (asm) try_parse_from.simps) simp
  next
    case (Some c)
    show ?thesis
    proof (cases c)
      case (Return rc0 r0)
      with Some run have "rc0 = rc" "r0 = r'"
        by (subst (asm) try_parse_from.simps, simp)+
      with Some Return ret [OF init] show ?thesis by simp
    next
      case (Goto l' p' cs' cell' r1)
      with Some run have run': "try_parse_from mem l' p' cs' cell' r1 = Some (rc, r')"
        by (subst (asm) try_parse_from.simps) simp
      from Some Goto have lb: "label_block mem l p cs cell r = Some (Goto l' p' cs' cell' r1)" by simp
      show ?thesis
        by (rule "1.IH" [OF Some Goto run' goto [OF init lb] goto ret])
    qed
  qed
qed

lemma cell_store_Some:
  "cell_store r i f = Some r' \<longleftrightarrow>
     i < length (cells (row r))
     \<and> r' = r\<lparr> row := (row r)\<lparr> cells := (cells (row r))[i := f (cells (row r) ! i)] \<rparr> \<rparr>"
  by (auto simp: cell_store_def)

lemma quoted_span:
  assumes "well_formed sse r0" "quoted_cell_spanner r = quoted_cell_spanner r0"
    and "StringSpanner_call (quoted_cell_spanner r) mem p = Some a"
  shows "a \<le> 16" and "a \<noteq> 16 \<Longrightarrow> p + a < length mem \<and> trigger r0 (mem ! (p + a))"
proof -
  from assms(1) have n: "StringSpanner_new sse (quotechar r0) (escapechar r0) 0 0 = Some (quoted_cell_spanner r0)"
    by (simp add: well_formed_def)
  from assms have c: "StringSpanner_call (quoted_cell_spanner r0) mem p = Some a" by simp
  from StringSpanner_call_Some [OF n c] show "a \<le> 16" by simp
  assume "a \<noteq> 16"
  with StringSpanner_call_Some [OF n c] show "p + a < length mem \<and> trigger r0 (mem ! (p + a))"
    by (auto simp: trigger_def)
qed

lemma unquoted_span:
  assumes "well_formed sse r0" "unquoted_cell_spanner r = unquoted_cell_spanner r0"
    and "StringSpanner_call (unquoted_cell_spanner r) mem p = Some a"
  shows "a \<le> 16"
    and "a \<noteq> 16 \<Longrightarrow> p + a < length mem \<and> mem ! (p + a) \<in> {delimiter r0, CR, LF, escapechar r0} - {0}"
proof -
  from assms(1) have n: "StringSpanner_new sse (delimiter r0) CR LF (escapechar r0) = Some (unquoted_cell_spanner r0)"
    by (simp add: well_formed_def)
  from assms have c: "StringSpanner_call (unquoted_cell_spanner r0) mem p = Some a" by simp
  from StringSpanner_call_Some [OF n c] show "a \<le> 16" by simp
  assume "a \<noteq> 16"
  with StringSpanner_call_Some [OF n c]
  show "p + a < length mem \<and> mem ! (p + a) \<in> {delimiter r0, CR, LF, escapechar r0} - {0}"
    by auto
qed

lemma tp_inv_goto_newline_skip:
  assumes "tp_inv r0 mem L_newline_skip p cs cell r"
    and "label_block mem L_newline_skip p cs cell r = Some (Goto l' p' cs' cell' r1)"
  shows "tp_inv r0 mem l' p' cs' cell' r1"
  using assms
  by (auto simp: tp_inv_def label_inv_def same_config_def bind_eq_Some_conv peek_Some split: if_splits)

lemma tp_inv_goto_cell_start:
  assumes "tp_inv r0 mem L_cell_start p cs cell r"
    and "label_block mem L_cell_start p cs cell r = Some (Goto l' p' cs' cell' r1)"
  shows "tp_inv r0 mem l' p' cs' cell' r1"
  using assms
  by (auto simp: tp_inv_def label_inv_def same_config_def bind_eq_Some_conv peek_Some cell_store_Some
      split: if_splits)

lemma tp_inv_goto_in_quoted_cell:
  assumes wf: "well_formed sse r0" and inv: "tp_inv r0 mem L_in_quoted_cell p cs cell r"
    and lb: "label_block mem L_in_quoted_cell p cs cell r = Some (Goto l' p' cs' cell' r1)"
  shows "tp_inv r0 mem l' p' cs' cell' r1"
proof -
  from lb obtain a where a: "StringSpanner_call (quoted_cell_spanner r) mem p = Some a"
    and g: "(a = 16 \<and> l' = L_in_quoted_cell \<and> p' = p + 16 \<or>
             a \<noteq> 16 \<and> l' = L_in_escape_or_end_of_quoted_cell \<and> p' = p + a + 1)"
    and same: "cs' = cs" "cell' = cell" "r1 = r"
    by (auto simp: bind_eq_Some_conv split: if_splits)
  from inv have q: "quoted_cell_spanner r = quoted_cell_spanner r0"
    by (simp add: tp_inv_def same_config_def)
  note sp = quoted_span [OF wf q a]
  from g show ?thesis
  proof (elim disjE conjE)
    assume "a = 16" "l' = L_in_quoted_cell" "p' = p + 16"
    with inv same show ?thesis
      by (auto simp: tp_inv_def label_inv_def)
  next
    assume "a \<noteq> 16" "l' = L_in_escape_or_end_of_quoted_cell" "p' = p + a + 1"
    with inv same sp show ?thesis
      by (auto simp: tp_inv_def label_inv_def)
  qed
qed

lemma tp_inv_goto_in_unquoted_cell:
  assumes wf: "well_formed sse r0" and inv: "tp_inv r0 mem L_in_unquoted_cell p cs cell r"
    and lb: "label_block mem L_in_unquoted_cell p cs cell r = Some (Goto l' p' cs' cell' r1)"
  shows "tp_inv r0 mem l' p' cs' cell' r1"
proof -
  from lb obtain a where a: "StringSpanner_call (unquoted_cell_spanner r) mem p = Some a"
    and g: "(a = 16 \<and> l' = L_in_unquoted_cell \<and> p' = p + 16 \<or>
             a \<noteq> 16 \<and> l' = L_in_escape_or_end_of_unquoted_cell \<and> p' = p + a)"
    and same: "cs' = cs" "cell' = cell" "r1 = r"
    by (auto simp: bind_eq_Some_conv split: if_splits)
  from inv have q: "unquoted_cell_spanner r = unquoted_cell_spanner r0"
    by (simp add: tp_inv_def same_config_def)
  note sp = unquoted_span [OF wf q a]
  from g show ?thesis
  proof (elim disjE conjE)
    assume "a = 16" "l' = L_in_unquoted_cell" "p' = p + 16"
    with inv same show ?thesis
      by (auto simp: tp_inv_def label_inv_def)
  next
    assume "a \<noteq> 16" "l' = L_in_escape_or_end_of_unquoted_cell" "p' = p + a"
    with inv same sp show ?thesis
      by (auto simp: tp_inv_def label_inv_def)
  qed
qed

lemma cell_done_update:
  "i < cell \<Longrightarrow> cell_done r0 mem (xs[cell := c] ! i) = cell_done r0 mem (xs ! i)"
  by simp

lemma tp_inv_goto_escape_quoted:
  assumes inv: "tp_inv r0 mem L_in_escape_or_end_of_quoted_cell p cs cell r"
    and lb: "label_block mem L_in_escape_or_end_of_quoted_cell p cs cell r = Some (Goto l' p' cs' cell' r1)"
  shows "tp_inv r0 mem l' p' cs' cell' r1"
proof -
  from lb have lt: "p < endp_r r" and pm: "p < length mem"
    by (auto simp: bind_eq_Some_conv peek_Some split: if_splits)
  from lb lt pm consider
    (delim) "mem ! p = delimiter r" "l' = L_cell_start" "p' = p + 1" "cs' = cs" "cell' = cell + 1"
       "r1 = incr_count (r\<lparr> row := (row r)\<lparr> cells := (cells (row r))[cell := (cells (row r) ! cell)\<lparr> ptr := Some cs, size_c := p - cs - 1 \<rparr>] \<rparr> \<rparr>)"
       "Suc (count (row r)) \<noteq> length (cells (row r))"
  | (esc) "mem ! p \<noteq> delimiter r" "mem ! p \<noteq> CR" "mem ! p \<noteq> LF" "l' = L_in_quoted_cell" "p' = p + 1" "cs' = cs" "cell' = cell"
       "r1 = r\<lparr> row := (row r)\<lparr> cells := (cells (row r))[cell := (cells (row r) ! cell)\<lparr> escaped := True \<rparr>] \<rparr> \<rparr>"
    by (auto simp: bind_eq_Some_conv peek_Some cell_store_Some incr_count_def split: if_splits)
  then show ?thesis
  proof cases
    case delim
    have cd: "cell_done r0 mem ((cells (row r) ! cell)\<lparr> ptr := Some cs, size_c := p - cs - 1 \<rparr>)"
      using inv lt pm
      by (auto simp: cell_done_def tp_inv_def label_inv_def same_config_def intro!: exI)
    from inv delim lt pm cd show ?thesis
      by (auto simp: tp_inv_def label_inv_def same_config_def incr_count_def less_Suc_eq nth_list_update)
  next
    case esc
    from inv esc lt pm show ?thesis
      by (auto simp: tp_inv_def label_inv_def same_config_def nth_list_update intro!: exI [of _ "p - 1"])
  qed
qed

lemma tp_inv_goto_escape_unquoted:
  assumes inv: "tp_inv r0 mem L_in_escape_or_end_of_unquoted_cell p cs cell r"
    and lb: "label_block mem L_in_escape_or_end_of_unquoted_cell p cs cell r = Some (Goto l' p' cs' cell' r1)"
  shows "tp_inv r0 mem l' p' cs' cell' r1"
proof -
  from lb have lt: "p < endp_r r" and pm: "p < length mem"
    by (auto simp: bind_eq_Some_conv peek_Some split: if_splits)
  from lb lt pm consider
    (delim) "mem ! p = delimiter r" "l' = L_cell_start" "p' = p + 1" "cs' = cs" "cell' = cell + 1"
       "r1 = incr_count (r\<lparr> row := (row r)\<lparr> cells := (cells (row r))[cell := (cells (row r) ! cell)\<lparr> ptr := Some cs, size_c := p - cs \<rparr>] \<rparr> \<rparr>)"
       "Suc (count (row r)) \<noteq> length (cells (row r))"
  | (esc) "mem ! p \<noteq> delimiter r" "mem ! p \<noteq> CR" "mem ! p \<noteq> LF" "l' = L_in_unquoted_cell" "p' = p + 1" "cs' = cs" "cell' = cell"
       "r1 = r\<lparr> row := (row r)\<lparr> cells := (cells (row r))[cell := (cells (row r) ! cell)\<lparr> escaped := True \<rparr>] \<rparr> \<rparr>"
    by (auto simp: bind_eq_Some_conv peek_Some cell_store_Some incr_count_def split: if_splits)
  then show ?thesis
  proof cases
    case delim
    have cd: "cell_done r0 mem ((cells (row r) ! cell)\<lparr> ptr := Some cs, size_c := p - cs \<rparr>)"
      using inv lt pm
      by (auto simp: cell_done_def tp_inv_def label_inv_def same_config_def intro!: exI)
    from inv delim lt pm cd show ?thesis
      by (auto simp: tp_inv_def label_inv_def same_config_def incr_count_def less_Suc_eq nth_list_update)
  next
    case esc
    from inv esc lt pm have "trigger r0 (mem ! p)"
      by (auto simp: tp_inv_def label_inv_def same_config_def trigger_def)
    with inv esc lt pm show ?thesis
      by (auto simp: tp_inv_def label_inv_def same_config_def nth_list_update intro!: exI [of _ p])
  qed
qed

lemma tp_inv_goto:
  assumes "well_formed sse r0" "tp_inv r0 mem l p cs cell r"
    and "label_block mem l p cs cell r = Some (Goto l' p' cs' cell' r1)"
  shows "tp_inv r0 mem l' p' cs' cell' r1"
  using assms
  by (cases l)
     (blast intro: tp_inv_goto_newline_skip tp_inv_goto_cell_start tp_inv_goto_in_quoted_cell
        tp_inv_goto_in_unquoted_cell tp_inv_goto_escape_quoted tp_inv_goto_escape_unquoted)+

lemma tp_inv_return_simple:
  assumes "tp_inv r0 mem l p cs cell r" "l = L_newline_skip \<or> l = L_in_quoted_cell \<or> l = L_in_unquoted_cell"
    and "label_block mem l p cs cell r = Some (Return rc r')"
  shows "tp_post r0 mem rc r'"
  using assms
  by (auto simp: tp_inv_def tp_post_def same_config_def bind_eq_Some_conv split: if_splits)

lemma tp_inv_return_cell_start:
  assumes inv: "tp_inv r0 mem L_cell_start p cs cell r"
    and lb: "label_block mem L_cell_start p cs cell r = Some (Return rc r')"
  shows "tp_post r0 mem rc r'"
proof -
  from lb consider
    (under) "endp_r r \<le> p" "rc = kCsmTryParseUnderrun" "r' = r\<lparr> in_newline_skip := False \<rparr>"
  | (okay) "p < endp_r r" "p < length mem" "mem ! p = CR \<or> mem ! p = LF" "rc = kCsmTryParseOkay"
      "r' = r\<lparr> in_newline_skip := False, p_r := p + 1,
               row := (row r)\<lparr> cells := (cells (row r))[cell := (cells (row r) ! cell)\<lparr> escaped := False, ptr := None, size_c := 0 \<rparr>],
                                count := count (row r) + 1 \<rparr> \<rparr>"
    by (auto simp: bind_eq_Some_conv peek_Some cell_store_Some incr_count_def split: if_splits)
  then show ?thesis
  proof cases
    case under
    with inv show ?thesis
      by (auto simp: tp_inv_def tp_post_def same_config_def)
  next
    case okay
    with inv have li: "1 \<le> cell" "p_r r0 < p" "mem ! (p - 1) = delimiter r0"
      by (auto simp: tp_inv_def label_inv_def)
    from inv okay li have "final_empty_cell r0 mem r'"
      by (auto simp: final_empty_cell_def tp_inv_def)
    with inv okay li show ?thesis
      by (auto simp: tp_inv_def tp_post_def same_config_def nth_list_update)
  qed
qed

lemma tp_inv_return_escape_quoted:
  assumes inv: "tp_inv r0 mem L_in_escape_or_end_of_quoted_cell p cs cell r"
    and lb: "label_block mem L_in_escape_or_end_of_quoted_cell p cs cell r = Some (Return rc r')"
  shows "tp_post r0 mem rc r'"
proof -
  let ?c = "(cells (row r) ! cell)\<lparr> ptr := Some cs, size_c := p - cs - 1 \<rparr>"
  let ?r1 = "r\<lparr> row := (row r)\<lparr> cells := (cells (row r))[cell := ?c], count := count (row r) + 1 \<rparr> \<rparr>"
  from lb consider
    (under) "endp_r r \<le> p" "rc = kCsmTryParseUnderrun" "r' = r"
  | (over) "p < endp_r r" "p < length mem" "mem ! p = delimiter r" "rc = kCsmTryParseOverflow"
      "r' = ?r1" "Suc (count (row r)) = length (cells (row r))"
  | (okay) "p < endp_r r" "p < length mem" "mem ! p = CR \<or> mem ! p = LF" "rc = kCsmTryParseOkay"
      "r' = ?r1\<lparr> p_r := p + 1 \<rparr>"
    by (auto simp: bind_eq_Some_conv peek_Some cell_store_Some incr_count_def split: if_splits)
  then show ?thesis
  proof cases
    case under
    with inv show ?thesis
      by (auto simp: tp_inv_def tp_post_def same_config_def)
  next
    case over
    have cd: "cell_done r0 mem ?c"
      using inv over
      by (auto simp: cell_done_def tp_inv_def label_inv_def same_config_def intro!: exI)
    from inv over cd show ?thesis
      by (auto simp: tp_inv_def tp_post_def same_config_def less_Suc_eq nth_list_update)
  next
    case okay
    have cd: "cell_done r0 mem ?c"
      using inv okay
      by (auto simp: cell_done_def tp_inv_def label_inv_def same_config_def intro!: exI)
    from inv okay cd show ?thesis
      by (auto simp: tp_inv_def tp_post_def same_config_def nth_list_update)
  qed
qed

lemma tp_inv_return_escape_unquoted:
  assumes inv: "tp_inv r0 mem L_in_escape_or_end_of_unquoted_cell p cs cell r"
    and lb: "label_block mem L_in_escape_or_end_of_unquoted_cell p cs cell r = Some (Return rc r')"
  shows "tp_post r0 mem rc r'"
proof -
  let ?c = "(cells (row r) ! cell)\<lparr> ptr := Some cs, size_c := p - cs \<rparr>"
  let ?r1 = "r\<lparr> row := (row r)\<lparr> cells := (cells (row r))[cell := ?c], count := count (row r) + 1 \<rparr> \<rparr>"
  from lb consider
    (under) "endp_r r \<le> p" "rc = kCsmTryParseUnderrun" "r' = r"
  | (over) "p < endp_r r" "p < length mem" "mem ! p = delimiter r" "rc = kCsmTryParseOverflow"
      "r' = ?r1" "Suc (count (row r)) = length (cells (row r))"
  | (okay) "p < endp_r r" "p < length mem" "mem ! p = CR \<or> mem ! p = LF" "rc = kCsmTryParseOkay"
      "r' = ?r1\<lparr> p_r := p + 1 \<rparr>"
    by (auto simp: bind_eq_Some_conv peek_Some cell_store_Some incr_count_def split: if_splits)
  then show ?thesis
  proof cases
    case under
    with inv show ?thesis
      by (auto simp: tp_inv_def tp_post_def same_config_def)
  next
    case over
    have cd: "cell_done r0 mem ?c"
      using inv over
      by (auto simp: cell_done_def tp_inv_def label_inv_def same_config_def intro!: exI)
    from inv over cd show ?thesis
      by (auto simp: tp_inv_def tp_post_def same_config_def less_Suc_eq nth_list_update)
  next
    case okay
    have cd: "cell_done r0 mem ?c"
      using inv okay
      by (auto simp: cell_done_def tp_inv_def label_inv_def same_config_def intro!: exI)
    from inv okay cd show ?thesis
      by (auto simp: tp_inv_def tp_post_def same_config_def nth_list_update)
  qed
qed

lemma tp_inv_return:
  assumes "tp_inv r0 mem l p cs cell r" "label_block mem l p cs cell r = Some (Return rc r')"
  shows "tp_post r0 mem rc r'"
  using assms
  by (cases l)
     (blast intro: tp_inv_return_simple tp_inv_return_cell_start tp_inv_return_escape_quoted
        tp_inv_return_escape_unquoted)+

text \<open>The postcondition of \<^verbatim>\<open>try_parse\<close>, for a reader with a non-empty cell vector.\<close>

lemma try_parse_post:
  assumes wf: "well_formed sse r" and ne: "cells (row r) \<noteq> []"
    and run: "try_parse r = Some (rc, r')"
  shows "tp_post (r\<lparr> row := (row r)\<lparr> count := 0 \<rparr> \<rparr>) (StreamCursor_mem (stream r)) rc r'"
proof -
  let ?r0 = "r\<lparr> row := (row r)\<lparr> count := 0 \<rparr> \<rparr>"
  let ?mem = "StreamCursor_mem (stream r)"
  from run have run': "try_parse_from ?mem L_newline_skip (p_r ?r0) 0 0 ?r0 = Some (rc, r')"
    by (simp add: try_parse_def)
  from wf have wf0: "well_formed sse ?r0" by (simp add: well_formed_def)
  from ne have init: "tp_inv ?r0 ?mem L_newline_skip (p_r ?r0) 0 0 ?r0"
    by (simp add: tp_inv_def label_inv_def same_config_def)
  show ?thesis
    by (rule try_parse_from_invariant [where I = "tp_inv ?r0 ?mem", OF run' init])
       (erule (1) tp_inv_goto [OF wf0], erule (1) tp_inv_return)
qed

section \<open>Decoding a cell\<close>

declare as_str_loop.simps [simp del]

lemma unescape_drop:
  "i < length s \<Longrightarrow>
   unescape e q (drop i s) =
     (if (e \<noteq> 0 \<and> s ! i = e) \<or> s ! i = q
      then (if i + 1 < length s then s ! (i + 1) # unescape e q (drop (i + 2) s) else [0])
      else s ! i # unescape e q (drop (i + 1) s))"
proof -
  assume lt: "i < length s"
  then have d: "drop i s = s ! i # drop (Suc i) s" by (simp add: Cons_nth_drop_Suc)
  show ?thesis
  proof (cases "i + 1 < length s")
    case True
    then have "drop (Suc i) s = s ! (Suc i) # drop (Suc (Suc i)) s" by (simp add: Cons_nth_drop_Suc)
    with d True show ?thesis by simp
  next
    case False
    with lt have "drop (Suc i) s = []" by simp
    with d False show ?thesis by simp
  qed
qed

lemma as_str_loop_unescape:
  "oo \<le> i \<Longrightarrow> as_str_loop e q s oo i = (s', o') \<Longrightarrow>
     take o' s' = take oo s @ unescape e q (drop i s)"
proof (induction e q s oo i arbitrary: s' o' rule: as_str_loop.induct)
  case (1 e q s oo i)
  show ?case
  proof (cases "i < length s")
    case False
    with "1.prems" show ?thesis by (simp add: as_str_loop.simps)
  next
    case True
    define i1 where "i1 = (if (e \<noteq> 0 \<and> s ! i = e) \<or> s ! i = q then i + 1 else i)"
    define v where "v = (if i1 < length s then s ! i1 else 0)"
    have "as_str_loop e q s oo i = as_str_loop e q (s[oo := v]) (oo + 1) (i1 + 1)"
      unfolding i1_def v_def by (subst as_str_loop.simps) (simp only: True if_True Let_def)
    with "1.prems"(2) have call: "as_str_loop e q (s[oo := v]) (oo + 1) (i1 + 1) = (s', o')"
      by simp
    have le: "oo + 1 \<le> i1 + 1" using "1.prems"(1) by (simp add: i1_def)
    have ih: "take o' s' = take (oo + 1) (s[oo := v]) @ unescape e q (drop (i1 + 1) (s[oo := v]))"
      by (rule "1.IH" [OF True refl _ _ le call]) (simp_all add: i1_def v_def)
    have oolt: "oo < length s" using "1.prems"(1) True by simp
    then have t: "take (oo + 1) (s[oo := v]) = take oo s @ [v]"
      by (simp add: take_Suc_conv_app_nth)
    have d: "drop (i1 + 1) (s[oo := v]) = drop (i1 + 1) s"
      using "1.prems"(1) by (simp add: i1_def)
    have u: "unescape e q (drop i s) = v # unescape e q (drop (i1 + 1) s)"
      using True by (subst unescape_drop) (auto simp: i1_def v_def)
    from ih t d u show ?thesis by simp
  qed
qed

lemma unescape_length: "length (unescape e q s) \<le> length s"
  by (induction e q s rule: unescape.induct) (auto split: list.splits)

lemma unescape_differs:
  "k < length s \<Longrightarrow> s ! k \<noteq> 0 \<Longrightarrow> (e \<noteq> 0 \<and> s ! k = e) \<or> s ! k = q \<Longrightarrow> unescape e q s \<noteq> s"
proof (induction s arbitrary: k)
  case Nil
  then show ?case by simp
next
  case (Cons c s)
  show ?case
  proof (cases "(e \<noteq> 0 \<and> c = e) \<or> c = q")
    case True
    show ?thesis
    proof (cases s)
      case Nil
      with Cons.prems True show ?thesis by auto
    next
      case (Cons d s')
      have "length (unescape e q (c # s)) \<le> Suc (length s')"
        using True Cons unescape_length [of e q s'] by auto
      then have "length (unescape e q (c # s)) \<noteq> length (c # s)" using Cons by simp
      then show ?thesis by metis
    qed
  next
    case False
    with Cons.prems obtain k' where k: "k = Suc k'" by (cases k) auto
    with Cons.prems have "unescape e q s \<noteq> s" by (intro Cons.IH [of k']) auto
    with False show ?thesis by auto
  qed
qed

lemma as_str_unescape:
  "as_str mem c e q = (if escaped c then unescape e q (raw_bytes mem c) else raw_bytes mem c)"
proof (cases "escaped c")
  case False
  then show ?thesis by (simp add: as_str_def)
next
  case True
  obtain s' o' where l: "as_str_loop e q (raw_bytes mem c) 0 0 = (s', o')"
    by (cases "as_str_loop e q (raw_bytes mem c) 0 0")
  from as_str_loop_unescape [OF _ l] have "take o' s' = unescape e q (raw_bytes mem c)" by simp
  with True l show ?thesis by (simp add: as_str_def)
qed

lemma cell_done_escaped_differs:
  assumes cd: "cell_done r0 mem c" and esc: "escaped c"
  shows "unescape (escapechar r0) (quotechar r0) (raw_bytes mem c) \<noteq> raw_bytes mem c"
proof -
  from cd esc obtain q m where q: "ptr c = Some q" "q + size_c c < length mem"
    and m: "q \<le> m" "m < q + size_c c" "trigger r0 (mem ! m)"
    by (auto simp: cell_done_def)
  have raw: "raw_bytes mem c = take (size_c c) (drop q mem)" using q by (simp add: raw_bytes_def)
  have len: "length (raw_bytes mem c) = size_c c" using q raw by simp
  have nth: "raw_bytes mem c ! (m - q) = mem ! m" using q m raw by simp
  show ?thesis
  proof (rule unescape_differs [where k = "m - q"])
    show "m - q < length (raw_bytes mem c)" using m len by simp
    show "raw_bytes mem c ! (m - q) \<noteq> 0" using m(3) nth by (simp add: trigger_def)
    show "(escapechar r0 \<noteq> 0 \<and> raw_bytes mem c ! (m - q) = escapechar r0)
        \<or> raw_bytes mem c ! (m - q) = quotechar r0"
      using m(3) nth by (auto simp: trigger_def)
  qed
qed

text \<open>
  Claim C5. For every parsed cell, the escaped flag is true iff the decoded string of the
  cell (\<^verbatim>\<open>as_str\<close> with the escape and quote characters of the parser) differs from its raw
  bytes. The parsed cells are the cells \<open>0 .. count - 1\<close> of the row after \<^verbatim>\<open>try_parse\<close>,
  whatever it returned, for a reader of either build with the spanners of its constructor.
\<close>

theorem escaped_iff_decoded_differs:
  assumes wf: "well_formed sse r" and ne: "cells (row r) \<noteq> []"
    and run: "try_parse r = Some (rc, r')" and i: "i < count (row r')"
  shows "escaped (cells (row r') ! i) \<longleftrightarrow>
     as_str (StreamCursor_mem (stream r')) (cells (row r') ! i) (escapechar r') (quotechar r')
       \<noteq> raw_bytes (StreamCursor_mem (stream r')) (cells (row r') ! i)"
proof -
  let ?r0 = "r\<lparr> row := (row r)\<lparr> count := 0 \<rparr> \<rparr>"
  let ?mem = "StreamCursor_mem (stream r)"
  let ?c = "cells (row r') ! i"
  note post = try_parse_post [OF wf ne run]
  then have cfg: "stream r' = stream r" "escapechar r' = escapechar r" "quotechar r' = quotechar r"
    by (simp_all add: tp_post_def same_config_def)
  have c: "cell_done ?r0 ?mem ?c \<or> \<not> escaped ?c"
  proof (cases "rc = kCsmTryParseOkay")
    case False
    with post i show ?thesis by (simp add: tp_post_def)
  next
    case True
    show ?thesis
    proof (cases "i < count (row r') - 1")
      case True
      with post \<open>rc = kCsmTryParseOkay\<close> show ?thesis by (simp add: tp_post_def)
    next
      case False
      with i have "i = count (row r') - 1" by simp
      with post \<open>rc = kCsmTryParseOkay\<close> show ?thesis
        by (auto simp: tp_post_def final_empty_cell_def)
    qed
  qed
  show ?thesis
  proof (cases "escaped ?c")
    case False
    then show ?thesis by (simp add: as_str_unescape)
  next
    case True
    with c have "cell_done ?r0 ?mem ?c" by simp
    from cell_done_escaped_differs [OF this True] True show ?thesis
      by (simp add: as_str_unescape cfg)
  qed
qed

theorem escaped_iff_decoded_differs_witness:
  "well_formed True (example_reader True [0x22, 0x61, 0x22, 0x22, 0x62, 0x22, 0x2C, 0x63, 0x0A])
   \<and> cells (row (example_reader True [0x22, 0x61, 0x22, 0x22, 0x62, 0x22, 0x2C, 0x63, 0x0A])) \<noteq> []
   \<and> try_parse (example_reader True [0x22, 0x61, 0x22, 0x22, 0x62, 0x22, 0x2C, 0x63, 0x0A]) \<noteq> None
   \<and> 0 < count (row (example_parsed True [0x22, 0x61, 0x22, 0x22, 0x62, 0x22, 0x2C, 0x63, 0x0A]))
   \<and> escaped (cells (row (example_parsed True [0x22, 0x61, 0x22, 0x22, 0x62, 0x22, 0x2C, 0x63, 0x0A])) ! 0)
   \<and> as_str (StreamCursor_mem (stream (example_parsed True [0x22, 0x61, 0x22, 0x22, 0x62, 0x22, 0x2C, 0x63, 0x0A])))
        (cells (row (example_parsed True [0x22, 0x61, 0x22, 0x22, 0x62, 0x22, 0x2C, 0x63, 0x0A])) ! 0)
        (escapechar (example_parsed True [0x22, 0x61, 0x22, 0x22, 0x62, 0x22, 0x2C, 0x63, 0x0A]))
        (quotechar (example_parsed True [0x22, 0x61, 0x22, 0x22, 0x62, 0x22, 0x2C, 0x63, 0x0A]))
      \<noteq> raw_bytes (StreamCursor_mem (stream (example_parsed True [0x22, 0x61, 0x22, 0x22, 0x62, 0x22, 0x2C, 0x63, 0x0A])))
        (cells (row (example_parsed True [0x22, 0x61, 0x22, 0x22, 0x62, 0x22, 0x2C, 0x63, 0x0A])) ! 0)"
proof -
  let ?r = "example_reader True [0x22, 0x61, 0x22, 0x22, 0x62, 0x22, 0x2C, 0x63, 0x0A]"
  let ?r' = "example_parsed True [0x22, 0x61, 0x22, 0x22, 0x62, 0x22, 0x2C, 0x63, 0x0A]"
  have wf: "well_formed True ?r"
    by (simp add: example_eval CR_def LF_def)
  have ne: "cells (row ?r) \<noteq> []"
    by (simp add: example_eval CR_def LF_def)
  have ev: "try_parse ?r \<noteq> None \<and> 0 < count (row ?r') \<and> escaped (cells (row ?r') ! 0)"
    by (simp add: example_eval parse_eval cursor_eval sse42_eval)
  then have run: "try_parse ?r = Some (fst (the (try_parse ?r)), ?r')"
    by (auto simp: example_parsed_def)
  from ev have i: "0 < count (row ?r')" and esc: "escaped (cells (row ?r') ! 0)"
    by simp_all
  from escaped_iff_decoded_differs [OF wf ne run i] esc wf ne ev show ?thesis
    by blast
qed

section \<open>The cursor during read_row\<close>

lemma sys_read_cases:
  assumes "sys_read f n = (rc, bs, f')"
  shows "(rc = - 1 \<and> bs = []) \<or> (rc = int (length bs) \<and> length bs \<le> n)"
proof (cases f)
  case Nil
  with assms show ?thesis by auto
next
  case (Cons x rest)
  with assms show ?thesis by (cases x) (auto split: if_splits)
qed

lemma fill_keeps_unread:
  assumes ok: "read_pos c \<le> write_pos c" "write_pos c \<le> length (vec c)"
    and f: "BufferedStreamCursor_fill c = (b, c')"
  shows "\<exists>bs. take (write_pos c' - read_pos c') (drop (read_pos c') (vec c'))
          = take (write_pos c - read_pos c) (drop (read_pos c) (vec c)) @ bs
          \<and> write_pos c' - read_pos c' = write_pos c - read_pos c + length bs
          \<and> (\<not> b \<longrightarrow> bs = [])"
proof -
  let ?n = "write_pos c - read_pos c"
  let ?u = "take ?n (drop (read_pos c) (vec c))"
  define c1 where "c1 = (if read_pos c \<noteq> 0
       then c\<lparr> vec := take ?n (drop (read_pos c) (vec c)) @ drop ?n (vec c),
              write_pos := write_pos c - read_pos c, read_pos := 0 \<rparr>
       else c)"
  define c2 where "c2 = (if write_pos c1 = length (vec c1) then ensure c1 (length (vec c1) div 2) else c1)"
  have lu: "length ?u = ?n" using ok by simp
  have c1: "read_pos c1 = 0" "write_pos c1 = ?n" "take ?n (vec c1) = ?u" "?n \<le> length (vec c1)"
    using ok lu by (auto simp: c1_def)
  have c2: "read_pos c2 = 0" "write_pos c2 = ?n" "take ?n (vec c2) = ?u" "?n \<le> length (vec c2)"
    using c1 by (auto simp: c2_def ensure_def Let_def)
  obtain rc bs fd' where sr: "sys_read (fd c2) (length (vec c2) - write_pos c2) = (rc, bs, fd')"
    by (cases "sys_read (fd c2) (length (vec c2) - write_pos c2)") auto
  define c3 where "c3 = c2\<lparr> vec := take (write_pos c2) (vec c2) @ bs @ drop (write_pos c2 + length bs) (vec c2), fd := fd' \<rparr>"
  have rm: "readmore c2 = (rc, c3)" using sr by (simp add: readmore_def c3_def)
  have "BufferedStreamCursor_fill c =
      (case readmore c2 of (rc, c3) \<Rightarrow>
         if rc = - 1 then (False, c3)
         else (write_pos (c3\<lparr> write_pos := write_pos c3 + nat rc \<rparr>) > 0,
               c3\<lparr> write_pos := write_pos c3 + nat rc \<rparr>))"
    unfolding BufferedStreamCursor_fill_def Let_def c2_def c1_def by (rule refl)
  then have fill: "BufferedStreamCursor_fill c =
      (if rc = - 1 then (False, c3) else (write_pos c3 + nat rc > 0, c3\<lparr> write_pos := write_pos c3 + nat rc \<rparr>))"
    by (simp add: rm)
  have v3: "vec c3 = ?u @ bs @ drop (?n + length bs) (vec c2)" "read_pos c3 = 0" "write_pos c3 = ?n"
    using c2 by (simp_all add: c3_def)
  from sys_read_cases [OF sr] show ?thesis
  proof
    assume "rc = - 1 \<and> bs = []"
    with fill f have "c' = c3" by simp
    with v3 lu have "take (write_pos c' - read_pos c') (drop (read_pos c') (vec c')) = ?u @ []
        \<and> write_pos c' - read_pos c' = ?n + length ([] :: byte list)"
      by simp
    then show ?thesis by blast
  next
    assume "rc = int (length bs) \<and> length bs \<le> length (vec c2) - write_pos c2"
    with fill f have c': "c' = c3\<lparr> write_pos := write_pos c3 + length bs \<rparr>"
      and b: "b \<longleftrightarrow> 0 < write_pos c3 + length bs" by auto
    from c' v3 lu have "take (write_pos c' - read_pos c') (drop (read_pos c') (vec c')) = ?u @ bs
        \<and> write_pos c' - read_pos c' = ?n + length bs"
      by simp
    moreover from b have "\<not> b \<longrightarrow> bs = []" by simp
    ultimately show ?thesis by blast
  qed
qed

lemma StreamCursor_fill_keeps_unread:
  assumes "cursor_ok s" "StreamCursor_fill s = (b, s')"
  shows "\<exists>bs. StreamCursor_unread s' = StreamCursor_unread s @ bs
          \<and> StreamCursor_size s' = StreamCursor_size s + length bs \<and> (\<not> b \<longrightarrow> bs = [])"
proof (cases s)
  case (Mapped c)
  with assms show ?thesis by (auto simp: MappedFileCursor_fill_def)
next
  case (Fd c)
  with assms obtain c' where c': "BufferedStreamCursor_fill c = (b, c')" "s' = Fd c'"
    by (auto split: prod.splits)
  from Fd assms(1) have "read_pos c \<le> write_pos c" "write_pos c \<le> length (vec c)" by simp_all
  from fill_keeps_unread [OF this c'(1)] Fd c'(2) show ?thesis
    by (simp add: StreamCursor_unread_def BufferedStreamCursor_size_def BufferedStreamCursor_buf_def)
qed

lemma StreamCursor_consume_unread:
  "n \<le> StreamCursor_size s \<Longrightarrow>
     StreamCursor_unread (StreamCursor_consume s n) = drop n (StreamCursor_unread s)"
  by (cases s)
     (auto simp: StreamCursor_unread_def cursor_eval drop_take add.commute min_def)

lemma StreamCursor_unread_length:
  "cursor_ok s \<Longrightarrow> length (StreamCursor_unread s) = StreamCursor_size s"
  by (cases s) (auto simp: StreamCursor_unread_def cursor_eval)

lemma read_row_return:
  "read_row_body r = Inl res \<Longrightarrow> read_row r = Some res"
  by (subst read_row.simps) simp

lemma read_row_again:
  "read_row_body r = Inr r' \<Longrightarrow> read_row r = read_row r'"
  by (subst read_row.simps) simp

text \<open>
  Claim C8, as stated, fails on underrun: when \<^verbatim>\<open>try_parse\<close> underruns and \<^verbatim>\<open>fill\<close> fails, the
  code after the loop of \<^verbatim>\<open>read_row\<close> calls \<^verbatim>\<open>consume\<close> if \<^verbatim>\<open>yield_incomplete_row\<close> is set and
  a cell has been parsed. On the three bytes \<open>a,b\<close> of a mapped file, with
  \<^verbatim>\<open>yield_incomplete_row\<close> set, \<^verbatim>\<open>try_parse\<close> underruns on the first pass, and \<^verbatim>\<open>read_row\<close>
  returns true with the cursor advanced from offset 0 to offset 3, past all the unread bytes.
\<close>

theorem cursor_advanced_on_underrun:
  "map_option fst (try_parse (incomplete_row_reader True [0x61, 0x2C, 0x62])) = Some kCsmTryParseUnderrun
   \<and> StreamCursor_buf (stream (incomplete_row_reader True [0x61, 0x2C, 0x62])) = 0
   \<and> StreamCursor_unread (stream (incomplete_row_reader True [0x61, 0x2C, 0x62])) = [0x61, 0x2C, 0x62]
   \<and> map_option returned (read_row (incomplete_row_reader True [0x61, 0x2C, 0x62])) = Some True
   \<and> map_option (StreamCursor_buf \<circ> stream \<circ> reader_after)
        (read_row (incomplete_row_reader True [0x61, 0x2C, 0x62])) = Some 3
   \<and> map_option (StreamCursor_unread \<circ> stream \<circ> reader_after)
        (read_row (incomplete_row_reader True [0x61, 0x2C, 0x62])) = Some []"
proof -
  let ?r = "incomplete_row_reader True [0x61, 0x2C, 0x62]"
  have tp: "map_option fst (try_parse ?r) = Some kCsmTryParseUnderrun"
    by (simp add: incomplete_row_reader_def example_eval parse_eval cursor_eval sse42_eval)
  have st: "StreamCursor_buf (stream ?r) = 0"
      "StreamCursor_unread (stream ?r) = [0x61, 0x2C, 0x62]"
    by (simp_all add: incomplete_row_reader_def example_eval cursor_eval StreamCursor_unread_def)
  have "\<exists>r'. read_row_body ?r = Inl (Row True r') \<and> StreamCursor_buf (stream r') = 3
      \<and> StreamCursor_unread (stream r') = []"
    by (simp add: incomplete_row_reader_def example_eval parse_eval cursor_eval sse42_eval
        StreamCursor_unread_def)
  then obtain r' where b: "read_row_body ?r = Inl (Row True r')"
    and s: "StreamCursor_buf (stream r') = 3" "StreamCursor_unread (stream r') = []"
    by blast
  have "read_row ?r = Some (Row True r')"
    using b by (subst read_row.simps) simp
  with tp st s show ?thesis by simp
qed

text \<open>
  Claim C8, amended. A call of \<^verbatim>\<open>read_row\<close>, by what its first \<^verbatim>\<open>try_parse\<close> returns;
  \<^verbatim>\<open>try_parse\<close> itself never changes the cursor. On overflow the cursor is not advanced, the
  cell vector is exactly doubled, and \<^verbatim>\<open>read_row\<close> starts again on the reader so changed,
  parsing the same row from the same \<^verbatim>\<open>buf()\<close>. On underrun, when \<^verbatim>\<open>fill\<close> succeeds, nothing
  is consumed and \<^verbatim>\<open>read_row\<close> starts again on the cursor that \<^verbatim>\<open>fill\<close> left, whose unread
  bytes are the old ones followed by what was read; when \<^verbatim>\<open>fill\<close> fails, \<^verbatim>\<open>read_row\<close> returns
  false with the unread bytes as they were, unless \<^verbatim>\<open>yield_incomplete_row\<close> is set and a cell
  has been parsed: then it returns true and \<^verbatim>\<open>consume\<close> is called for all the unread bytes.
  On success \<^verbatim>\<open>read_row\<close> returns true and the cursor has been advanced once, by the number
  \<open>n\<close> of bytes of the row, which is positive and within \<^verbatim>\<open>size()\<close>: the unread bytes are the
  old ones without their first \<open>n\<close>.
\<close>

theorem cursor_advances_once_per_row:
  assumes wf: "well_formed sse r" and ne: "cells (row r) \<noteq> []" and ok: "cursor_ok (stream r)"
    and run: "try_parse (r\<lparr> p_r := StreamCursor_buf (stream r),
                           endp_r := StreamCursor_buf (stream r) + StreamCursor_size (stream r) \<rparr>)
              = Some (rc, r2)"
  shows "stream r2 = stream r
       \<and> (rc = kCsmTryParseOverflow \<longrightarrow>
            read_row r = read_row (r2\<lparr> row := (row r2)\<lparr> cells :=
                             cells_resize (cells (row r2)) (2 * length (cells (row r))) \<rparr> \<rparr>)
            \<and> length (cells_resize (cells (row r2)) (2 * length (cells (row r))))
                 = 2 * length (cells (row r)))
       \<and> (rc = kCsmTryParseUnderrun \<and> fst (StreamCursor_fill (stream r)) \<longrightarrow>
            read_row r = read_row (r2\<lparr> stream := snd (StreamCursor_fill (stream r)) \<rparr>)
            \<and> (\<exists>bs. StreamCursor_unread (snd (StreamCursor_fill (stream r)))
                       = StreamCursor_unread (stream r) @ bs))
       \<and> (rc = kCsmTryParseUnderrun \<and> \<not> fst (StreamCursor_fill (stream r))
           \<and> \<not> (count (row r2) \<noteq> 0 \<and> yield_incomplete_row r) \<longrightarrow>
            read_row r = Some (Row False (r2\<lparr> stream := snd (StreamCursor_fill (stream r)) \<rparr>))
            \<and> StreamCursor_unread (snd (StreamCursor_fill (stream r))) = StreamCursor_unread (stream r))
       \<and> (rc = kCsmTryParseUnderrun \<and> \<not> fst (StreamCursor_fill (stream r))
           \<and> count (row r2) \<noteq> 0 \<and> yield_incomplete_row r \<longrightarrow>
            read_row r = Some (Row True (r2\<lparr> stream :=
                StreamCursor_consume (snd (StreamCursor_fill (stream r))) (StreamCursor_size (stream r)) \<rparr>))
            \<and> StreamCursor_unread
                 (StreamCursor_consume (snd (StreamCursor_fill (stream r))) (StreamCursor_size (stream r)))
               = [])
       \<and> (rc = kCsmTryParseOkay \<longrightarrow>
            (\<exists>n. n = p_r r2 - StreamCursor_buf (stream r)
               \<and> 0 < n \<and> n \<le> StreamCursor_size (stream r)
               \<and> read_row r = Some (Row True (r2\<lparr> stream := StreamCursor_consume (stream r) n \<rparr>))
               \<and> StreamCursor_unread (StreamCursor_consume (stream r) n)
                    = drop n (StreamCursor_unread (stream r))))"
proof -
  let ?p = "StreamCursor_buf (stream r)"
  let ?r1 = "r\<lparr> p_r := ?p, endp_r := ?p + StreamCursor_size (stream r) \<rparr>"
  have wf1: "well_formed sse ?r1" using wf by (simp add: well_formed_def)
  have ne1: "cells (row ?r1) \<noteq> []" using ne by simp
  note post = try_parse_post [OF wf1 ne1 run]
  then have st: "stream r2 = stream r" and len: "length (cells (row r2)) = length (cells (row r))"
    and y: "yield_incomplete_row r2 = yield_incomplete_row r"
    and e: "endp_r r2 = ?p + StreamCursor_size (stream r)"
    by (simp_all add: tp_post_def same_config_def)
  have a0: "stream r2 = stream r" by fact
  obtain fl s' where fl: "StreamCursor_fill (stream r) = (fl, s')"
    by (cases "StreamCursor_fill (stream r)")
  from StreamCursor_fill_keeps_unread [OF ok fl] obtain bs
    where bs: "StreamCursor_unread s' = StreamCursor_unread (stream r) @ bs"
      "StreamCursor_size s' = StreamCursor_size (stream r) + length bs" "\<not> fl \<longrightarrow> bs = []"
    by blast
  have a1: "rc = kCsmTryParseOverflow \<longrightarrow>
            read_row r = read_row (r2\<lparr> row := (row r2)\<lparr> cells :=
                             cells_resize (cells (row r2)) (2 * length (cells (row r))) \<rparr> \<rparr>)
            \<and> length (cells_resize (cells (row r2)) (2 * length (cells (row r))))
                 = 2 * length (cells (row r))"
  proof
    assume rc: "rc = kCsmTryParseOverflow"
    have "read_row_body r = Inr (r2\<lparr> row := (row r2)\<lparr> cells :=
                             cells_resize (cells (row r2)) (2 * length (cells (row r))) \<rparr> \<rparr>)"
      using run rc len by (simp add: read_row_body_def Let_def)
    from read_row_again [OF this] len
    show "read_row r = read_row (r2\<lparr> row := (row r2)\<lparr> cells :=
                             cells_resize (cells (row r2)) (2 * length (cells (row r))) \<rparr> \<rparr>)
            \<and> length (cells_resize (cells (row r2)) (2 * length (cells (row r))))
                 = 2 * length (cells (row r))"
      by (simp add: cells_resize_def)
  qed
  have a2: "rc = kCsmTryParseUnderrun \<and> fst (StreamCursor_fill (stream r)) \<longrightarrow>
            read_row r = read_row (r2\<lparr> stream := snd (StreamCursor_fill (stream r)) \<rparr>)
            \<and> (\<exists>bs. StreamCursor_unread (snd (StreamCursor_fill (stream r)))
                       = StreamCursor_unread (stream r) @ bs)"
  proof
    assume "rc = kCsmTryParseUnderrun \<and> fst (StreamCursor_fill (stream r))"
    with fl have rc: "rc = kCsmTryParseUnderrun" and t: "fl" by simp_all
    have "read_row_body r = Inr (r2\<lparr> stream := s' \<rparr>)"
      using run rc st fl t by (simp add: read_row_body_def Let_def)
    from read_row_again [OF this] fl bs(1)
    show "read_row r = read_row (r2\<lparr> stream := snd (StreamCursor_fill (stream r)) \<rparr>)
            \<and> (\<exists>bs. StreamCursor_unread (snd (StreamCursor_fill (stream r)))
                       = StreamCursor_unread (stream r) @ bs)"
      by simp
  qed
  have a3: "rc = kCsmTryParseUnderrun \<and> \<not> fst (StreamCursor_fill (stream r))
           \<and> \<not> (count (row r2) \<noteq> 0 \<and> yield_incomplete_row r) \<longrightarrow>
            read_row r = Some (Row False (r2\<lparr> stream := snd (StreamCursor_fill (stream r)) \<rparr>))
            \<and> StreamCursor_unread (snd (StreamCursor_fill (stream r))) = StreamCursor_unread (stream r)"
  proof
    assume "rc = kCsmTryParseUnderrun \<and> \<not> fst (StreamCursor_fill (stream r))
           \<and> \<not> (count (row r2) \<noteq> 0 \<and> yield_incomplete_row r)"
    with fl y have rc: "rc = kCsmTryParseUnderrun" and t: "\<not> fl"
      and c: "\<not> (count (row r2) \<noteq> 0 \<and> yield_incomplete_row r2)" by simp_all
    have "read_row_body r = Inl (Row False (r2\<lparr> stream := s' \<rparr>))"
      using run rc st fl t c by (simp add: read_row_body_def Let_def)
    from read_row_return [OF this] fl bs t
    show "read_row r = Some (Row False (r2\<lparr> stream := snd (StreamCursor_fill (stream r)) \<rparr>))
            \<and> StreamCursor_unread (snd (StreamCursor_fill (stream r))) = StreamCursor_unread (stream r)"
      by simp
  qed
  have a4: "rc = kCsmTryParseUnderrun \<and> \<not> fst (StreamCursor_fill (stream r))
           \<and> count (row r2) \<noteq> 0 \<and> yield_incomplete_row r \<longrightarrow>
            read_row r = Some (Row True (r2\<lparr> stream :=
                StreamCursor_consume (snd (StreamCursor_fill (stream r))) (StreamCursor_size (stream r)) \<rparr>))
            \<and> StreamCursor_unread
                 (StreamCursor_consume (snd (StreamCursor_fill (stream r))) (StreamCursor_size (stream r)))
               = []"
  proof
    assume "rc = kCsmTryParseUnderrun \<and> \<not> fst (StreamCursor_fill (stream r))
           \<and> count (row r2) \<noteq> 0 \<and> yield_incomplete_row r"
    with fl y have rc: "rc = kCsmTryParseUnderrun" and t: "\<not> fl"
      and c: "count (row r2) \<noteq> 0 \<and> yield_incomplete_row r2" by simp_all
    have "read_row_body r = Inl (Row True (r2\<lparr> stream :=
              StreamCursor_consume s' (StreamCursor_size (stream r)) \<rparr>))"
      using run rc st fl t c e by (simp add: read_row_body_def Let_def)
    note rr = read_row_return [OF this]
    from bs t have same: "StreamCursor_unread s' = StreamCursor_unread (stream r)"
      "StreamCursor_size s' = StreamCursor_size (stream r)" by simp_all
    then have "StreamCursor_unread (StreamCursor_consume s' (StreamCursor_size (stream r)))
        = drop (StreamCursor_size (stream r)) (StreamCursor_unread (stream r))"
      using StreamCursor_consume_unread [of "StreamCursor_size (stream r)" s'] by simp
    also have "\<dots> = []" using StreamCursor_unread_length [OF ok] by simp
    finally show "read_row r = Some (Row True (r2\<lparr> stream :=
                StreamCursor_consume (snd (StreamCursor_fill (stream r))) (StreamCursor_size (stream r)) \<rparr>))
            \<and> StreamCursor_unread
                 (StreamCursor_consume (snd (StreamCursor_fill (stream r))) (StreamCursor_size (stream r)))
               = []"
      using rr fl by simp
  qed
  have a5: "rc = kCsmTryParseOkay \<longrightarrow>
            (\<exists>n. n = p_r r2 - StreamCursor_buf (stream r)
               \<and> 0 < n \<and> n \<le> StreamCursor_size (stream r)
               \<and> read_row r = Some (Row True (r2\<lparr> stream := StreamCursor_consume (stream r) n \<rparr>))
               \<and> StreamCursor_unread (StreamCursor_consume (stream r) n)
                    = drop n (StreamCursor_unread (stream r)))"
  proof
    assume rc: "rc = kCsmTryParseOkay"
    let ?n = "p_r r2 - ?p"
    from post rc have pos: "?p < p_r r2" "p_r r2 \<le> ?p + StreamCursor_size (stream r)"
      by (simp_all add: tp_post_def)
    then have n: "0 < ?n" "?n \<le> StreamCursor_size (stream r)" by simp_all
    have "read_row_body r = Inl (Row True (r2\<lparr> stream := StreamCursor_consume (stream r) ?n \<rparr>))"
      using run rc st by (simp add: read_row_body_def Let_def)
    from read_row_return [OF this] n StreamCursor_consume_unread [OF n(2)]
    show "\<exists>n. n = p_r r2 - StreamCursor_buf (stream r)
               \<and> 0 < n \<and> n \<le> StreamCursor_size (stream r)
               \<and> read_row r = Some (Row True (r2\<lparr> stream := StreamCursor_consume (stream r) n \<rparr>))
               \<and> StreamCursor_unread (StreamCursor_consume (stream r) n)
                    = drop n (StreamCursor_unread (stream r))"
      by simp
  qed
  show ?thesis by (intro conjI a0 a1 a2 a3 a4 a5)
qed

theorem cursor_advances_once_per_row_witness:
  "well_formed True (example_reader True [0x61, 0x2C, 0x62, 0x0A])
   \<and> cells (row (example_reader True [0x61, 0x2C, 0x62, 0x0A])) \<noteq> []
   \<and> cursor_ok (stream (example_reader True [0x61, 0x2C, 0x62, 0x0A]))
   \<and> fst (the (try_parse (example_reader True [0x61, 0x2C, 0x62, 0x0A]))) = kCsmTryParseOkay
   \<and> p_r (example_parsed True [0x61, 0x2C, 0x62, 0x0A])
        - StreamCursor_buf (stream (example_reader True [0x61, 0x2C, 0x62, 0x0A])) = 4
   \<and> read_row (example_reader True [0x61, 0x2C, 0x62, 0x0A])
        = Some (Row True ((example_parsed True [0x61, 0x2C, 0x62, 0x0A])
            \<lparr> stream := StreamCursor_consume (stream (example_reader True [0x61, 0x2C, 0x62, 0x0A])) 4 \<rparr>))
   \<and> StreamCursor_unread (StreamCursor_consume (stream (example_reader True [0x61, 0x2C, 0x62, 0x0A])) 4)
        = drop 4 (StreamCursor_unread (stream (example_reader True [0x61, 0x2C, 0x62, 0x0A])))"
proof -
  let ?r = "example_reader True [0x61, 0x2C, 0x62, 0x0A]"
  let ?r' = "example_parsed True [0x61, 0x2C, 0x62, 0x0A]"
  have wf: "well_formed True ?r"
    by (simp add: example_eval CR_def LF_def)
  have ne: "cells (row ?r) \<noteq> []"
    by (simp add: example_eval CR_def LF_def)
  have ok: "cursor_ok (stream ?r)"
    by (simp add: example_eval CR_def LF_def)
  have same: "?r\<lparr> p_r := StreamCursor_buf (stream ?r),
                endp_r := StreamCursor_buf (stream ?r) + StreamCursor_size (stream ?r) \<rparr> = ?r"
    by (simp add: example_eval cursor_eval CR_def LF_def)
  have ev: "try_parse ?r \<noteq> None \<and> fst (the (try_parse ?r)) = kCsmTryParseOkay
      \<and> p_r ?r' - StreamCursor_buf (stream ?r) = 4"
    by (simp add: example_eval parse_eval cursor_eval sse42_eval)
  then have run: "try_parse (?r\<lparr> p_r := StreamCursor_buf (stream ?r),
                endp_r := StreamCursor_buf (stream ?r) + StreamCursor_size (stream ?r) \<rparr>)
      = Some (kCsmTryParseOkay, ?r')"
    unfolding same by (auto simp: example_parsed_def)
  from cursor_advances_once_per_row [OF wf ne ok run] ev wf ne ok show ?thesis
    by auto
qed

section \<open>Null and non-null pointers of empty cells\<close>

text \<open>At the label \<^verbatim>\<open>cell_start\<close>, facing a line terminator.\<close>

lemma cell_start_at_terminator:
  assumes "p < endp_r x" "cell < length (cells (row x))" "p < length mem" "mem ! p = CR \<or> mem ! p = LF"
  shows "\<exists>x'. try_parse_from mem L_cell_start p cs cell x = Some (kCsmTryParseOkay, x')
           \<and> ptr (cells (row x') ! cell) = None \<and> size_c (cells (row x') ! cell) = 0
           \<and> count (row x') = count (row x) + 1"
  using assms
  by (subst try_parse_from.simps)
     (auto simp: peek_def cell_store_def incr_count_def)

text \<open>
  Claim C10. For a row that \<^verbatim>\<open>try_parse\<close> completed: every cell in a non-final position, empty
  or not, has a non-null pointer into the bytes of the cursor between \<^verbatim>\<open>buf()\<close> and the end of
  the data; the final cell has a null pointer only with size 0, and then the line
  terminator that ended the row directly follows a delimiter. And whenever the parser is
  at a cell start and the next byte is a line terminator, it ends the row with a cell whose
  pointer is null and whose size is 0.
\<close>

theorem empty_final_cell_is_null:
  assumes wf: "well_formed sse r" and ne: "cells (row r) \<noteq> []"
    and run: "try_parse r = Some (kCsmTryParseOkay, r')"
  shows "(\<forall>i. i + 1 < count (row r') \<longrightarrow>
            (\<exists>q. ptr (cells (row r') ! i) = Some q \<and> p_r r \<le> q
               \<and> q + size_c (cells (row r') ! i) < endp_r r))
       \<and> (ptr (cells (row r') ! (count (row r') - 1)) = None \<longrightarrow>
            size_c (cells (row r') ! (count (row r') - 1)) = 0
            \<and> 2 \<le> count (row r')
            \<and> StreamCursor_mem (stream r) ! (p_r r' - 2) = delimiter r
            \<and> (StreamCursor_mem (stream r) ! (p_r r' - 1) = CR
                 \<or> StreamCursor_mem (stream r) ! (p_r r' - 1) = LF))
       \<and> (\<forall>p cs cell x.
            p < endp_r x \<and> cell < length (cells (row x)) \<and> p < length (StreamCursor_mem (stream r))
            \<and> (StreamCursor_mem (stream r) ! p = CR \<or> StreamCursor_mem (stream r) ! p = LF) \<longrightarrow>
            (\<exists>x'. try_parse_from (StreamCursor_mem (stream r)) L_cell_start p cs cell x
                     = Some (kCsmTryParseOkay, x')
               \<and> ptr (cells (row x') ! cell) = None \<and> size_c (cells (row x') ! cell) = 0
               \<and> count (row x') = count (row x) + 1))"
proof -
  let ?r0 = "r\<lparr> row := (row r)\<lparr> count := 0 \<rparr> \<rparr>"
  let ?mem = "StreamCursor_mem (stream r)"
  note post = try_parse_post [OF wf ne run]
  have a: "\<forall>i. i + 1 < count (row r') \<longrightarrow>
            (\<exists>q. ptr (cells (row r') ! i) = Some q \<and> p_r r \<le> q
               \<and> q + size_c (cells (row r') ! i) < endp_r r)"
  proof (intro allI impI)
    fix i assume "i + 1 < count (row r')"
    with post have "cell_done ?r0 ?mem (cells (row r') ! i)" by (simp add: tp_post_def)
    then show "\<exists>q. ptr (cells (row r') ! i) = Some q \<and> p_r r \<le> q
               \<and> q + size_c (cells (row r') ! i) < endp_r r"
      by (auto simp: cell_done_def)
  qed
  have b: "ptr (cells (row r') ! (count (row r') - 1)) = None \<longrightarrow>
            size_c (cells (row r') ! (count (row r') - 1)) = 0
            \<and> 2 \<le> count (row r')
            \<and> ?mem ! (p_r r' - 2) = delimiter r
            \<and> (?mem ! (p_r r' - 1) = CR \<or> ?mem ! (p_r r' - 1) = LF)"
    using post by (auto simp: tp_post_def final_empty_cell_def cell_done_def)
  from a b cell_start_at_terminator show ?thesis by blast
qed

theorem empty_final_cell_is_null_witness:
  "well_formed True (example_reader True [0x61, 0x2C, 0x0A])
   \<and> cells (row (example_reader True [0x61, 0x2C, 0x0A])) \<noteq> []
   \<and> try_parse (example_reader True [0x61, 0x2C, 0x0A])
        = Some (kCsmTryParseOkay, example_parsed True [0x61, 0x2C, 0x0A])
   \<and> count (row (example_parsed True [0x61, 0x2C, 0x0A])) = 2
   \<and> ptr (cells (row (example_parsed True [0x61, 0x2C, 0x0A])) ! 0) = Some 0
   \<and> ptr (cells (row (example_parsed True [0x61, 0x2C, 0x0A])) ! 1) = None
   \<and> size_c (cells (row (example_parsed True [0x61, 0x2C, 0x0A])) ! 1) = 0
   \<and> StreamCursor_mem (stream (example_reader True [0x61, 0x2C, 0x0A]))
        ! (p_r (example_parsed True [0x61, 0x2C, 0x0A]) - 2)
      = delimiter (example_reader True [0x61, 0x2C, 0x0A])"
proof -
  let ?r = "example_reader True [0x61, 0x2C, 0x0A]"
  let ?r' = "example_parsed True [0x61, 0x2C, 0x0A]"
  have wf: "well_formed True ?r"
    by (simp add: example_eval CR_def LF_def)
  have ne: "cells (row ?r) \<noteq> []"
    by (simp add: example_eval CR_def LF_def)
  have ev: "try_parse ?r \<noteq> None \<and> fst (the (try_parse ?r)) = kCsmTryParseOkay
      \<and> count (row ?r') = 2 \<and> ptr (cells (row ?r') ! 0) = Some 0 \<and> ptr (cells (row ?r') ! 1) = None"
    by (simp add: example_eval parse_eval cursor_eval sse42_eval)
  then have run: "try_parse ?r = Some (kCsmTryParseOkay, ?r')"
    by (auto simp: example_parsed_def)
  from ev have c: "count (row ?r') - 1 = 1" by simp
  have "ptr (cells (row ?r') ! (count (row ?r') - 1)) = None \<longrightarrow>
          size_c (cells (row ?r') ! (count (row ?r') - 1)) = 0
          \<and> 2 \<le> count (row ?r')
          \<and> StreamCursor_mem (stream ?r) ! (p_r ?r' - 2) = delimiter ?r
          \<and> (StreamCursor_mem (stream ?r) ! (p_r ?r' - 1) = CR
               \<or> StreamCursor_mem (stream ?r) ! (p_r ?r' - 1) = LF)"
    by (rule empty_final_cell_is_null [OF wf ne run, THEN conjunct2, THEN conjunct1])
  with ev c have "size_c (cells (row ?r') ! 1) = 0
      \<and> StreamCursor_mem (stream ?r) ! (p_r ?r' - 2) = delimiter ?r"
    by simp
  with ev wf ne run show ?thesis
    by simp
qed

section \<open>The rows of an input\<close>










lemma rows_to_come_state:
  "fst (snd (spec_scan d q e st k bs)) = fst (snd (spec_scan d q e st' k' bs'))
   \<Longrightarrow> fst (snd (snd (spec_scan d q e st k bs))) = fst (snd (snd (spec_scan d q e st' k' bs')))
   \<Longrightarrow> rows_to_come d q e y st k bs = rows_to_come d q e y st' k' bs'"
  by (simp add: rows_to_come_def rows_finished_def closed_cells_def)











declare spec_unquoted.simps [simp del] spec_cell_start.simps [simp del]




















subsection \<open>The number of rows\<close>




end
